theory Spec2Isabelle
  imports Complex_Main "HOL-Library.Word" "HOL-Library.Log_Nat"
begin

unbundle bit_operations_syntax

section \<open>Values shared by the generator and the selection schemes\<close>

text \<open>
  The sources are C++. An \<^verbatim>\<open>emp_assert\<close> that fails stops the call; a conversion
  whose result the language leaves undefined stops the model as well. Both are results
  of the model, so that every path of the source is a branch here.
\<close>

datatype error = AssertFail | Undefined

type_synonym u32 = "32 word"
type_synonym u64 = "64 word"

subsection \<open>Binary64 arithmetic\<close>

text \<open>
  A finite \<^verbatim>\<open>double\<close> is the rational number it denotes. An arithmetic operation of
  the source computes the exact result and rounds it to the nearest number of the
  binary64 format, ties to even (the default rounding of IEEE 754): a 53-bit
  significand, with the spacing \<open>2^(e - 52)\<close> between neighbours at the binary exponent
  \<open>e\<close> of a normal number and the fixed spacing \<open>2^(-1074)\<close> of the subnormal numbers
  below \<open>2^(-1022)\<close>. \<open>exponent q\<close> is the \<open>e\<close> with \<open>2^e \<le> q < 2^(e+1)\<close>, found
  from the bit lengths of numerator and denominator. The largest finite number is
  \<open>DBL_MAX\<close>; a rounded result beyond it is an infinity in the source. The products
  and quotients of the generator and the quotient of \<^verbatim>\<open>EcoSelect\<close> are never larger
  in magnitude than one of their finite operands and stay finite (lemma
  \<open>finite_results\<close>); the sum of \<^verbatim>\<open>EcoSelect\<close> can pass \<open>DBL_MAX\<close>, and its
  result has the two infinities (\<open>xdouble\<close>). The values handed
  to the schemes (fitness values, pool sizes, probabilities) are finite: NaN and
  infinite arguments are outside the model, and so is the sign of zero, which no
  operation modelled here observes.
\<close>

type_synonym double = rat

definition exponent :: "rat \<Rightarrow> int" where
  "exponent q = (case quotient_of q of (a, b) \<Rightarrow>
     let d = bitlen a - bitlen b
     in if 2 powi d \<le> q then d else d - 1)"

definition ulp_exponent :: "rat \<Rightarrow> int" where
  "ulp_exponent q = max (exponent q - 52) (- 1074)"

definition round_half_even :: "rat \<Rightarrow> int" where
  "round_half_even m = (let f = \<lfloor>m\<rfloor>; r = m - of_int f
     in if r < 1/2 then f else if 1/2 < r then f + 1 else if even f then f else f + 1)"

definition round_double :: "rat \<Rightarrow> double" where
  "round_double q = (if q = 0 then 0 else
     let u = 2 powi (ulp_exponent \<bar>q\<bar>)
     in sgn q * of_int (round_half_even (\<bar>q\<bar> / u)) * u)"

definition DBL_MAX :: double where
  "DBL_MAX = (2 ^ 53 - 1) * 2 ^ 971"

definition is_double :: "rat \<Rightarrow> bool" where
  "is_double q = (round_double q = q \<and> \<bar>q\<bar> \<le> DBL_MAX)"

definition dmul :: "double \<Rightarrow> double \<Rightarrow> double" where
  "dmul x y = round_double (x * y)"

definition ddiv :: "double \<Rightarrow> double \<Rightarrow> double" where
  "ddiv x y = round_double (x / y)"

text \<open>
  A \<^verbatim>\<open>double\<close> that may be infinite, a sum whose rounded result passes \<open>DBL_MAX\<close>,
  and the comparison \<^verbatim>\<open>>\<close>. An infinity stays what it is when a finite number is added.
\<close>

datatype xdouble = Finite double | PosInf | NegInf

definition xdouble_of :: "rat \<Rightarrow> xdouble" where
  "xdouble_of q = (let d = round_double q
     in if DBL_MAX < d then PosInf else if d < - DBL_MAX then NegInf else Finite d)"

fun dadd :: "xdouble \<Rightarrow> double \<Rightarrow> xdouble" where
  "dadd (Finite x) y = xdouble_of (x + y)"
| "dadd PosInf y = PosInf"
| "dadd NegInf y = NegInf"

fun xgreater :: "xdouble \<Rightarrow> xdouble \<Rightarrow> bool" where
  "xgreater (Finite x) (Finite y) = (x > y)"
| "xgreater (Finite x) PosInf = False"
| "xgreater (Finite x) NegInf = True"
| "xgreater PosInf (Finite y) = True"
| "xgreater PosInf PosInf = False"
| "xgreater PosInf NegInf = True"
| "xgreater NegInf y = False"

text \<open>Conversion of an unsigned integer (of any width) to \<^verbatim>\<open>double\<close>.\<close>

definition double_of_nat :: "nat \<Rightarrow> double" where
  "double_of_nat n = round_double (of_nat n)"

text \<open>
  \<^verbatim>\<open>static_cast<uint32_t>\<close> of a \<^verbatim>\<open>double\<close> drops the fraction (it rounds towards
  zero); when the result is not a \<^verbatim>\<open>uint32_t\<close> the behaviour is undefined.
\<close>

definition double_trunc :: "double \<Rightarrow> int" where
  "double_trunc d = (if 0 \<le> d then \<lfloor>d\<rfloor> else \<lceil>d\<rceil>)"

definition u32_of_double :: "double \<Rightarrow> error + u32" where
  "u32_of_double d =
     (if 0 \<le> double_trunc d \<and> double_trunc d < 2 ^ 32 then Inr (word_of_int (double_trunc d))
      else Inl Undefined)"

section \<open>The generator: \<^verbatim>\<open>include/emp/math/Random.hpp\<close>\<close>

record Random =
  "value" :: u64
  weyl_state :: u64
  original_seed :: u64
  expRV :: double

definition RAND_CAP :: nat where
  "RAND_CAP = 4294967296"

definition STEP_SIZE :: u64 where
  "STEP_SIZE = 0xb5ad4eceda1ce2a9"

definition Get :: "Random \<Rightarrow> u32 \<times> Random" where
  "Get r =
     (let v1 = value r * value r;
          w = weyl_state r + STEP_SIZE;
          v2 = v1 + w;
          v3 = drop_bit 32 v2 OR push_bit 32 v2
      in (ucast v3, r\<lparr>value := v3, weyl_state := w\<rparr>))"

text \<open>
  \<^verbatim>\<open>ResetSeed\<close> reads the clock and the address of the object when the seed is not
  positive; both are inputs of the model. It assigns \<^verbatim>\<open>weyl_state\<close> and
  \<^verbatim>\<open>original_seed\<close> and nothing else.
\<close>

definition ResetSeed :: "u64 \<Rightarrow> u64 \<Rightarrow> u64 \<Rightarrow> Random \<Rightarrow> Random" where
  "ResetSeed seed_time seed_mem seed r =
     (let w = (if sint seed \<le> 0 then seed_time XOR seed_mem else seed)
      in r\<lparr>weyl_state := w * 2, original_seed := w\<rparr>)"

text \<open>The constructor: the members' initialisers, then \<^verbatim>\<open>ResetSeed(seed)\<close> on an \<^verbatim>\<open>int\<close>.\<close>

definition Random_new :: "u64 \<Rightarrow> u64 \<Rightarrow> u32 \<Rightarrow> Random" where
  "Random_new seed_time seed_mem seed =
     ResetSeed seed_time seed_mem (scast seed)
       \<lparr>value = 0, weyl_state = 0, original_seed = 0, expRV = 0\<rparr>"

definition GetSeed :: "Random \<Rightarrow> u64" where
  "GetSeed r = original_seed r"

definition GetDouble :: "Random \<Rightarrow> double \<times> Random" where
  "GetDouble r = (case Get r of (g, r') \<Rightarrow> (ddiv (double_of_nat (unat g)) (double_of_nat RAND_CAP), r'))"

definition GetDouble_max :: "double \<Rightarrow> Random \<Rightarrow> double \<times> Random" where
  "GetDouble_max mx r = (case GetDouble r of (x, r') \<Rightarrow> (dmul x mx, r'))"

text \<open>\<^verbatim>\<open>GetUInt(max)\<close> for an argument of an unsigned integer type.\<close>

definition GetUInt :: "nat \<Rightarrow> Random \<Rightarrow> error + u32 \<times> Random" where
  "GetUInt mx r =
     (case GetDouble r of (x, r') \<Rightarrow>
        (case u32_of_double (dmul x (double_of_nat mx)) of
           Inl e \<Rightarrow> Inl e
         | Inr n \<Rightarrow> Inr (n, r')))"

definition P :: "double \<Rightarrow> Random \<Rightarrow> error + bool \<times> Random" where
  "P p r =
     (if \<not> (0 \<le> p \<and> p \<le> 1) then Inl AssertFail
      else case Get r of (g, r') \<Rightarrow>
        Inr (double_of_nat (unat g) < dmul p (double_of_nat RAND_CAP), r'))"




text \<open>The first \<open>n\<close> values of \<^verbatim>\<open>Get\<close>, and the generator after \<open>n\<close> calls.\<close>

fun Get_seq :: "nat \<Rightarrow> Random \<Rightarrow> u32 list" where
  "Get_seq 0 r = []"
| "Get_seq (Suc n) r = (case Get r of (g, r') \<Rightarrow> g # Get_seq n r')"



section \<open>The collaborators of the selection schemes\<close>

text \<open>
  \<^verbatim>\<open>World_select.h\<close> is written against \<^verbatim>\<open>emp::World<ORG>\<close>, whose definition is not
  among the sources. Its member functions are therefore parameters: a record of
  operations on a world state \<open>'w\<close>, with organisms \<open>'o\<close> and genomes \<open>'g\<close>.
  \<open>GetFitFun\<close> tells whether the fitness function object is set. \<open>GetRandom\<close> yields
  the generator held by the world and \<open>SetRandom\<close> writes it back (the source draws
  through a reference). \<open>DoBirth\<close> gets genome, parent id and copy count and yields the
  position of the offspring. \<open>OnLexicaseSelect\<close> is the optional hook
  \<^verbatim>\<open>TriggerOnLexicaseSelect\<close>. The fitness cache is not modelled: \<open>CalcFitnessID\<close> reads
  the world and does not change it.
\<close>

record ('w, 'o, 'g) World =
  GetSize :: "'w \<Rightarrow> nat"
  GetNumOrgs :: "'w \<Rightarrow> nat"
  IsOccupied :: "'w \<Rightarrow> nat \<Rightarrow> bool"
  IsSynchronous :: "'w \<Rightarrow> bool"
  IsCacheOn :: "'w \<Rightarrow> bool"
  ClearCache :: "'w \<Rightarrow> 'w"
  GetFitFun :: "'w \<Rightarrow> bool"
  CalcFitnessID :: "'w \<Rightarrow> nat \<Rightarrow> double"
  GetGenomeAt :: "'w \<Rightarrow> nat \<Rightarrow> 'g"
  GetOrg :: "'w \<Rightarrow> nat \<Rightarrow> 'o"
  GetRandom :: "'w \<Rightarrow> Random"
  SetRandom :: "'w \<Rightarrow> Random \<Rightarrow> 'w"
  GetRandomOrgID :: "'w \<Rightarrow> nat \<times> 'w"
  DoBirth :: "'w \<Rightarrow> 'g \<Rightarrow> nat \<Rightarrow> nat \<Rightarrow> nat \<times> 'w"
  OnLexicaseSelect :: "'w \<Rightarrow> nat list \<Rightarrow> nat \<Rightarrow> 'w"

text \<open>
  A selection scheme returns nothing; what it does is its calls of \<^verbatim>\<open>DoBirth\<close>. The
  model of a scheme yields how the call ended (\<open>None\<close>: it ran to its end), the births
  it requested until then, each as parent id and copy count, in order, and the world.
\<close>

type_synonym birth = "nat \<times> nat"
type_synonym 'w outcome = "error option \<times> birth list \<times> 'w"

text \<open>Reading a vector outside its bounds has no defined result.\<close>

definition vec_at :: "'a list \<Rightarrow> nat \<Rightarrow> error + 'a" where
  "vec_at xs i = (if i < length xs then Inr (xs ! i) else Inl Undefined)"

subsection \<open>The weighted index\<close>

text \<open>
  Modelled from the spec: \<^verbatim>\<open>IndexMap\<close> (tools/IndexMap.h is not among the sources). The
  spec gives a weight per id, \<open>Adjust\<close> that creates or updates the weight of an id,
  \<open>GetWeight\<close> as the sum of the current weights, and \<open>Index\<close> that yields the id
  whose half-open interval of cumulative weight holds the position and fails for a
  position outside \<open>[0, total)\<close>.
\<close>

type_synonym IndexMap = "double list"


definition Adjust :: "IndexMap \<Rightarrow> nat \<Rightarrow> double \<Rightarrow> IndexMap" where
  "Adjust m i weight =
     (if i < length m then m[i := weight] else m @ replicate (i - length m) 0 @ [weight])"

definition GetWeight :: "IndexMap \<Rightarrow> double" where
  "GetWeight m = sum_list m"

fun Index_from :: "nat \<Rightarrow> IndexMap \<Rightarrow> double \<Rightarrow> error + nat" where
  "Index_from i [] pos = Inl AssertFail"
| "Index_from i (x # xs) pos = (if pos < x then Inr i else Index_from (Suc i) xs (pos - x))"

definition Index :: "IndexMap \<Rightarrow> double \<Rightarrow> error + nat" where
  "Index m pos = (if pos < 0 \<or> GetWeight m \<le> pos then Inl AssertFail else Index_from 0 m pos)"

section \<open>The selection schemes: \<^verbatim>\<open>source/Evolve/World_select.h\<close>\<close>

subsection \<open>EliteSelect\<close>

text \<open>
  \<^verbatim>\<open>std::multimap\<close> keeps its entries ordered by key and puts a new entry behind the
  entries of an equal key.
\<close>

fun multimap_insert :: "double \<times> nat \<Rightarrow> (double \<times> nat) list \<Rightarrow> (double \<times> nat) list" where
  "multimap_insert e [] = [e]"
| "multimap_insert e (x # xs) = (if fst e < fst x then e # x # xs else x # multimap_insert e xs)"

fun Elite_births ::
  "('w, 'o, 'g) World \<Rightarrow> nat \<Rightarrow> nat \<Rightarrow> (double \<times> nat) list \<Rightarrow> birth list \<Rightarrow> 'w \<Rightarrow> 'w outcome" where
  "Elite_births W copy_count 0 m births w = (None, births, w)"
| "Elite_births W copy_count (Suc i) [] births w = (Some Undefined, births, w)"
| "Elite_births W copy_count (Suc i) (e # m) births w =
     (let repro_id = snd e
      in Elite_births W copy_count i m (births @ [(repro_id, copy_count)])
           (snd (DoBirth W w (GetGenomeAt W w repro_id) repro_id copy_count)))"

definition EliteSelect :: "('w, 'o, 'g) World \<Rightarrow> 'w \<Rightarrow> nat \<Rightarrow> nat \<Rightarrow> 'w outcome" where
  "EliteSelect W w e_count copy_count =
     (if \<not> (e_count > 0 \<and> e_count \<le> GetNumOrgs W w) then (Some AssertFail, [], w)
      else if \<not> copy_count > 0 then (Some AssertFail, [], w)
      else
        let fit_map = foldl (\<lambda>m i. if IsOccupied W w i
                                    then multimap_insert (CalcFitnessID W w i, i) m else m)
                        [] [0..<GetSize W w]
        in Elite_births W copy_count e_count (rev fit_map) [] w)"

subsection \<open>TournamentSelect\<close>

fun draw_entries :: "('w, 'o, 'g) World \<Rightarrow> nat \<Rightarrow> 'w \<Rightarrow> nat list \<times> 'w" where
  "draw_entries W 0 w = ([], w)"
| "draw_entries W (Suc n) w =
     (case GetRandomOrgID W w of (e, w1) \<Rightarrow>
        case draw_entries W n w1 of (es, w2) \<Rightarrow> (e # es, w2))"

text \<open>The search for a higher fit organism among \<open>entries[1..]\<close>: best fitness and best id.\<close>

fun tournament_scan :: "(nat \<Rightarrow> double) \<Rightarrow> nat list \<Rightarrow> double \<times> nat \<Rightarrow> double \<times> nat" where
  "tournament_scan fit [] best = best"
| "tournament_scan fit (e # es) best =
     (let cur_fit = fit e
      in if cur_fit > fst best then tournament_scan fit es (cur_fit, e)
         else tournament_scan fit es best)"

definition tournament_best :: "(nat \<Rightarrow> double) \<Rightarrow> nat list \<Rightarrow> error + nat" where
  "tournament_best fit entries =
     (case entries of
        [] \<Rightarrow> Inl Undefined
      | e # es \<Rightarrow> Inr (snd (tournament_scan fit es (fit e, e))))"

fun Tournament_loop ::
  "('w, 'o, 'g) World \<Rightarrow> nat \<Rightarrow> nat \<Rightarrow> birth list \<Rightarrow> 'w \<Rightarrow> 'w outcome" where
  "Tournament_loop W t_size 0 births w = (None, births, w)"
| "Tournament_loop W t_size (Suc T) births w =
     (case draw_entries W t_size w of (entries, w1) \<Rightarrow>
        case tournament_best (CalcFitnessID W w1) entries of
          Inl e \<Rightarrow> (Some e, births, w1)
        | Inr best_id \<Rightarrow>
            Tournament_loop W t_size T (births @ [(best_id, 1)])
              (snd (DoBirth W w1 (GetGenomeAt W w1 best_id) best_id 1)))"

definition TournamentSelect :: "('w, 'o, 'g) World \<Rightarrow> 'w \<Rightarrow> nat \<Rightarrow> nat \<Rightarrow> 'w outcome" where
  "TournamentSelect W w t_size tourny_count =
     (if \<not> t_size > 0 then (Some AssertFail, [], w)
      else if \<not> tourny_count > 0 then (Some AssertFail, [], w)
      else Tournament_loop W t_size tourny_count [] w)"

subsection \<open>RouletteSelect\<close>


text \<open>One pass of the loop over \<open>n\<close>: parent, offspring, the index and the world after it.\<close>

definition Roulette_step ::
  "('w, 'o, 'g) World \<Rightarrow> IndexMap \<Rightarrow> 'w \<Rightarrow> error \<times> 'w + nat \<times> nat \<times> IndexMap \<times> 'w" where
  "Roulette_step W fitness_index w =
     (case GetDouble_max (GetWeight fitness_index) (GetRandom W w) of (fit_pos, r') \<Rightarrow>
        let w1 = SetRandom W w r'
        in case Index fitness_index fit_pos of
             Inl e \<Rightarrow> Inl (e, w1)
           | Inr parent_id \<Rightarrow>
               (case DoBirth W w1 (GetGenomeAt W w1 parent_id) parent_id 1 of
                  (offspring_id, w2) \<Rightarrow>
                    Inr (parent_id, offspring_id,
                         (if IsSynchronous W w2 = False
                          then Adjust fitness_index offspring_id (CalcFitnessID W w2 offspring_id)
                          else fitness_index),
                         w2)))"



subsection \<open>LexicaseSelect\<close>

text \<open>
  Organisms of one genotype are collected in one list; \<open>genotype_counts\<close> maps a
  genome to the position of its list.
\<close>

definition group_step ::
  "('w, 'o, 'g) World \<Rightarrow> 'w \<Rightarrow> ('g \<times> nat) list \<times> nat list list \<Rightarrow> nat
     \<Rightarrow> ('g \<times> nat) list \<times> nat list list" where
  "group_step W w st org_id =
     (case st of (genotype_counts, genotype_lists) \<Rightarrow>
        if IsOccupied W w org_id then
          (let gen = GetGenomeAt W w org_id
           in case map_of genotype_counts gen of
                Some k \<Rightarrow> (genotype_counts, genotype_lists[k := genotype_lists ! k @ [org_id]])
              | None \<Rightarrow> (genotype_counts @ [(gen, length genotype_lists)],
                          genotype_lists @ [[org_id]]))
        else st)"

text \<open>
  The loop over \<open>cur_gens\<close> for one fitness function: the state is \<open>max_fit\<close> and
  \<open>next_gens\<close>. Before the loop the source puts \<open>cur_gens[0]\<close> into \<open>next_gens\<close>;
  the loop then visits every element of \<open>cur_gens\<close>, the first one too.
\<close>

fun lexicase_scan :: "(nat \<Rightarrow> double) \<Rightarrow> nat list \<Rightarrow> double \<times> nat list \<Rightarrow> double \<times> nat list" where
  "lexicase_scan fit [] st = st"
| "lexicase_scan fit (gen_id # gs) st =
     (let cur_fit = fit gen_id
      in if cur_fit > fst st then lexicase_scan fit gs (cur_fit, [gen_id])
         else if cur_fit = fst st then lexicase_scan fit gs (fst st, snd st @ [gen_id])
         else lexicase_scan fit gs st)"

definition lexicase_step :: "(nat \<Rightarrow> double) \<Rightarrow> nat list \<Rightarrow> error + nat list" where
  "lexicase_step fit cur_gens =
     (case cur_gens of
        [] \<Rightarrow> Inl Undefined
      | g0 # gs \<Rightarrow> Inr (snd (lexicase_scan fit cur_gens (fit g0, [g0]))))"

text \<open>
  The loop over \<open>order\<close>, with its \<open>break\<close>: the survivors and \<open>depth\<close>. Every
  genotype id in \<open>cur_gens\<close> is a position of \<open>genotype_lists\<close>, hence of each row of
  \<open>fitnesses\<close>; the function id comes from outside and is checked.
\<close>

fun lexicase_filter ::
  "double list list \<Rightarrow> nat list \<Rightarrow> nat list \<Rightarrow> int \<Rightarrow> error + nat list \<times> int" where
  "lexicase_filter fitnesses [] cur_gens depth = Inr (cur_gens, depth)"
| "lexicase_filter fitnesses (fit_id # order) cur_gens depth =
     (case vec_at fitnesses fit_id of
        Inl e \<Rightarrow> Inl e
      | Inr row \<Rightarrow>
          (case lexicase_step (\<lambda>gen_id. row ! gen_id) cur_gens of
             Inl e \<Rightarrow> Inl e
           | Inr next_gens \<Rightarrow>
               if length next_gens = 1 then Inr (next_gens, depth + 1)
               else lexicase_filter fitnesses order next_gens (depth + 1)))"

fun pick_winner :: "nat list list \<Rightarrow> nat list \<Rightarrow> nat \<Rightarrow> int" where
  "pick_winner genotype_lists [] winner = - 1"
| "pick_winner genotype_lists (gen # gens) winner =
     (if winner < length (genotype_lists ! gen) then int (genotype_lists ! gen ! winner)
      else pick_winner genotype_lists gens (winner - length (genotype_lists ! gen)))"

fun draw_order :: "nat \<Rightarrow> nat \<Rightarrow> Random \<Rightarrow> error + nat list \<times> Random" where
  "draw_order n 0 r = Inr ([], r)"
| "draw_order n (Suc k) r =
     (case GetUInt n r of
        Inl e \<Rightarrow> Inl e
      | Inr (x, r1) \<Rightarrow>
          (case draw_order n k r1 of
             Inl e \<Rightarrow> Inl e
           | Inr (xs, r2) \<Rightarrow> Inr (unat x # xs, r2)))"

text \<open>
  One offspring. \<^verbatim>\<open>GetPermutation\<close> and \<^verbatim>\<open>Slice\<close> are not among the sources: the
  first is the parameter \<open>perm\<close>, the second takes the first \<open>depth + 1\<close> elements.
\<close>

definition Lexicase_round ::
  "('w, 'o, 'g) World \<Rightarrow> (Random \<Rightarrow> nat \<Rightarrow> nat list \<times> Random) \<Rightarrow> nat \<Rightarrow> nat
     \<Rightarrow> nat list list \<Rightarrow> nat list \<Rightarrow> double list list \<Rightarrow> 'w \<Rightarrow> error \<times> 'w + nat \<times> 'w" where
  "Lexicase_round W perm fit_count max_funs genotype_lists all_gens fitnesses w =
     (case (if max_funs = fit_count then Inr (perm (GetRandom W w) fit_count)
            else draw_order fit_count max_funs (GetRandom W w)) of
        Inl e \<Rightarrow> Inl (e, w)
      | Inr (order, r1) \<Rightarrow>
          let w1 = SetRandom W w r1
          in case lexicase_filter fitnesses order all_gens (- 1) of
               Inl e \<Rightarrow> Inl (e, w1)
             | Inr (cur_gens, depth) \<Rightarrow>
                 if \<not> length cur_gens > 0 then Inl (AssertFail, w1)
                 else
                   let options = sum_list (map (\<lambda>gen. length (genotype_lists ! gen)) cur_gens)
                   in case GetUInt options (GetRandom W w1) of
                        Inl e \<Rightarrow> Inl (e, w1)
                      | Inr (winner, r2) \<Rightarrow>
                          let w2 = SetRandom W w1 r2;
                              repro_id = pick_winner genotype_lists cur_gens (unat winner)
                          in if \<not> repro_id \<noteq> - 1 then Inl (AssertFail, w2)
                             else
                               let used = take (nat (depth + 1)) order;
                                   w3 = OnLexicaseSelect W w2 used (nat repro_id)
                               in Inr (nat repro_id,
                                       snd (DoBirth W w3 (GetGenomeAt W w3 (nat repro_id))
                                              (nat repro_id) 1)))"

fun Lexicase_loop ::
  "('w, 'o, 'g) World \<Rightarrow> (Random \<Rightarrow> nat \<Rightarrow> nat list \<times> Random) \<Rightarrow> nat \<Rightarrow> nat
     \<Rightarrow> nat list list \<Rightarrow> nat list \<Rightarrow> double list list \<Rightarrow> nat \<Rightarrow> birth list \<Rightarrow> 'w
     \<Rightarrow> 'w outcome" where
  "Lexicase_loop W perm fit_count max_funs genotype_lists all_gens fitnesses 0 births w =
     (None, births, w)"
| "Lexicase_loop W perm fit_count max_funs genotype_lists all_gens fitnesses (Suc n) births w =
     (case Lexicase_round W perm fit_count max_funs genotype_lists all_gens fitnesses w of
        Inl (e, w1) \<Rightarrow> (Some e, births, w1)
      | Inr (repro_id, w1) \<Rightarrow>
          Lexicase_loop W perm fit_count max_funs genotype_lists all_gens fitnesses n
            (births @ [(repro_id, 1)]) w1)"

definition LexicaseSelect ::
  "('w, 'o, 'g) World \<Rightarrow> (Random \<Rightarrow> nat \<Rightarrow> nat list \<times> Random) \<Rightarrow> 'w
     \<Rightarrow> ('o \<Rightarrow> double) list \<Rightarrow> nat \<Rightarrow> nat \<Rightarrow> 'w outcome" where
  "LexicaseSelect W perm w fit_funs repro_count max_funs =
     (if \<not> GetSize W w > 0 then (Some AssertFail, [], w)
      else if \<not> length fit_funs > 0 then (Some AssertFail, [], w)
      else
        let genotype_lists = snd (foldl (group_step W w) ([], []) [0..<GetSize W w]);
            all_gens = [0..<length genotype_lists];
            max_funs' = (if max_funs = 0 then length fit_funs else max_funs);
            fitnesses = map (\<lambda>f. map (\<lambda>gen. f (GetOrg W w (gen ! 0))) genotype_lists) fit_funs
        in Lexicase_loop W perm (length fit_funs) max_funs' genotype_lists all_gens fitnesses
             repro_count [] w)"

subsection \<open>EcoSelect\<close>

text \<open>
  The collection of the fitness values: for each organism the base fitness, and for
  each supplemental function its value, the running maximum (from 0.0) and the number
  of organisms seen at that maximum (from 0). The base fitness is the vector that the
  bonuses are added to later, so its entries are of type \<open>xdouble\<close>.
\<close>

type_synonym eco_extra = "double list list \<times> double list \<times> nat list"

definition Eco_extra_step ::
  "('o \<Rightarrow> double) list \<Rightarrow> 'o \<Rightarrow> nat \<Rightarrow> eco_extra \<Rightarrow> nat \<Rightarrow> eco_extra" where
  "Eco_extra_step extra_funs org org_id st ex_id =
     (case st of (extra_fitnesses, max_extra_fit, max_count) \<Rightarrow>
        let cur_fit = (extra_funs ! ex_id) org;
            extra_fitnesses' =
              extra_fitnesses[ex_id := (extra_fitnesses ! ex_id)[org_id := cur_fit]]
        in if cur_fit > max_extra_fit ! ex_id
           then (extra_fitnesses', max_extra_fit[ex_id := cur_fit], max_count[ex_id := 1])
           else if cur_fit = max_extra_fit ! ex_id
           then (extra_fitnesses', max_extra_fit, max_count[ex_id := max_count ! ex_id + 1])
           else (extra_fitnesses', max_extra_fit, max_count))"

definition Eco_org_step ::
  "('w, 'o, 'g) World \<Rightarrow> 'w \<Rightarrow> ('o \<Rightarrow> double) list \<Rightarrow> xdouble list \<times> eco_extra \<Rightarrow> nat
     \<Rightarrow> xdouble list \<times> eco_extra" where
  "Eco_org_step W w extra_funs st org_id =
     (case st of (base_fitness, extra) \<Rightarrow>
        (base_fitness[org_id := Finite (CalcFitnessID W w org_id)],
         foldl (Eco_extra_step extra_funs (GetOrg W w org_id) org_id) extra
           [0..<length extra_funs]))"

definition Eco_collect ::
  "('w, 'o, 'g) World \<Rightarrow> 'w \<Rightarrow> ('o \<Rightarrow> double) list \<Rightarrow> xdouble list \<times> eco_extra" where
  "Eco_collect W w extra_funs =
     foldl (Eco_org_step W w extra_funs)
       (replicate (GetSize W w) (Finite 0),
        replicate (length extra_funs) (replicate (GetSize W w) 0),
        replicate (length extra_funs) 0,
        replicate (length extra_funs) 0)
       [0..<GetSize W w]"

text \<open>The readjustment of the base fitness, one supplemental function after the other.\<close>

definition Eco_org_bonus ::
  "double list \<Rightarrow> double \<Rightarrow> double \<Rightarrow> xdouble list \<Rightarrow> nat \<Rightarrow> xdouble list" where
  "Eco_org_bonus extra_row max_fit cur_bonus base_fitness org_id =
     (if extra_row ! org_id = max_fit
      then base_fitness[org_id := dadd (base_fitness ! org_id) cur_bonus]
      else base_fitness)"

fun Eco_readjust ::
  "double list \<Rightarrow> eco_extra \<Rightarrow> nat list \<Rightarrow> xdouble list \<Rightarrow> error + xdouble list" where
  "Eco_readjust pool_sizes extra [] base_fitness = Inr base_fitness"
| "Eco_readjust pool_sizes extra (ex_id # exs) base_fitness =
     (case extra of (extra_fitnesses, max_extra_fit, max_count) \<Rightarrow>
        if max_count ! ex_id = 0 then Eco_readjust pool_sizes extra exs base_fitness
        else
          case vec_at pool_sizes ex_id of
            Inl e \<Rightarrow> Inl e
          | Inr pool \<Rightarrow>
              let cur_bonus = ddiv pool (double_of_nat (max_count ! ex_id))
              in Eco_readjust pool_sizes extra exs
                   (foldl (Eco_org_bonus (extra_fitnesses ! ex_id) (max_extra_fit ! ex_id) cur_bonus)
                      base_fitness [0..<length base_fitness]))"

definition EcoSelect_fitness ::
  "('w, 'o, 'g) World \<Rightarrow> 'w \<Rightarrow> ('o \<Rightarrow> double) list \<Rightarrow> double list \<Rightarrow> error + xdouble list" where
  "EcoSelect_fitness W w extra_funs pool_sizes =
     (case Eco_collect W w extra_funs of (base_fitness, extra) \<Rightarrow>
        Eco_readjust pool_sizes extra [0..<length extra_funs] base_fitness)"

text \<open>
  The tournaments of \<^verbatim>\<open>EcoSelect\<close> read the adjusted fitness of a contestant from the
  vector \<open>base_fitness\<close>, whose size is the size of the world at the entry of the call:
  the id of a contestant beyond it is a read outside the vector.
\<close>

fun Eco_scan :: "xdouble list \<Rightarrow> nat list \<Rightarrow> xdouble \<times> nat \<Rightarrow> error + xdouble \<times> nat" where
  "Eco_scan base_fitness [] best = Inr best"
| "Eco_scan base_fitness (e # es) best =
     (case vec_at base_fitness e of
        Inl err \<Rightarrow> Inl err
      | Inr cur_fit \<Rightarrow>
          if xgreater cur_fit (fst best) then Eco_scan base_fitness es (cur_fit, e)
          else Eco_scan base_fitness es best)"

definition Eco_best :: "xdouble list \<Rightarrow> nat list \<Rightarrow> error + nat" where
  "Eco_best base_fitness entries =
     (case entries of
        [] \<Rightarrow> Inl Undefined
      | e # es \<Rightarrow>
          (case vec_at base_fitness e of
             Inl err \<Rightarrow> Inl err
           | Inr best_fit \<Rightarrow>
               (case Eco_scan base_fitness es (best_fit, e) of
                  Inl err \<Rightarrow> Inl err
                | Inr best \<Rightarrow> Inr (snd best))))"

fun Eco_loop ::
  "('w, 'o, 'g) World \<Rightarrow> nat \<Rightarrow> nat \<Rightarrow> xdouble list \<Rightarrow> birth list \<Rightarrow> 'w \<Rightarrow> 'w outcome" where
  "Eco_loop W t_size 0 base_fitness births w = (None, births, w)"
| "Eco_loop W t_size (Suc T) base_fitness births w =
     (case draw_entries W t_size w of (entries, w1) \<Rightarrow>
        case Eco_best base_fitness entries of
          Inl e \<Rightarrow> (Some e, births, w1)
        | Inr best_id \<Rightarrow>
            Eco_loop W t_size T base_fitness (births @ [(best_id, 1)])
              (snd (DoBirth W w1 (GetGenomeAt W w1 best_id) best_id 1)))"

definition EcoSelect ::
  "('w, 'o, 'g) World \<Rightarrow> 'w \<Rightarrow> ('o \<Rightarrow> double) list \<Rightarrow> double list \<Rightarrow> nat \<Rightarrow> nat \<Rightarrow> 'w outcome" where
  "EcoSelect W w extra_funs pool_sizes t_size tourny_count =
     (if \<not> GetFitFun W w then (Some AssertFail, [], w)
      else if \<not> GetSize W w > 0 then (Some AssertFail, [], w)
      else if \<not> (t_size > 0 \<and> t_size \<le> GetSize W w) then (Some AssertFail, [], w)
      else
        let w0 = (if IsCacheOn W w then ClearCache W w else w)
        in case EcoSelect_fitness W w0 extra_funs pool_sizes of
             Inl e \<Rightarrow> (Some e, [], w0)
           | Inr base_fitness \<Rightarrow> Eco_loop W t_size tourny_count base_fitness [] w0)"

text \<open>The overload that takes one pool size for all supplemental functions.\<close>

definition EcoSelect_pool ::
  "('w, 'o, 'g) World \<Rightarrow> 'w \<Rightarrow> ('o \<Rightarrow> double) list \<Rightarrow> double \<Rightarrow> nat \<Rightarrow> nat \<Rightarrow> 'w outcome" where
  "EcoSelect_pool W w extra_funs pool_sizes t_size tourny_count =
     EcoSelect W w extra_funs (replicate (length extra_funs) pool_sizes) t_size tourny_count"

subsection \<open>MapElites\<close>

text \<open>A \<^verbatim>\<open>std::function\<close> may be empty: \<open>pheno_fun\<close> is an option.\<close>

record 'o MapElitesPhenotype =
  pheno_fun :: "('o \<Rightarrow> nat) option"
  id_count :: nat

definition Phenotype_OK :: "'o MapElitesPhenotype \<Rightarrow> bool" where
  "Phenotype_OK p = (pheno_fun p \<noteq> None \<and> id_count p \<noteq> 0)"

fun Config_OK :: "'o MapElitesPhenotype list \<Rightarrow> bool" where
  "Config_OK [] = True"
| "Config_OK (p # phenotypes) = (if \<not> Phenotype_OK p then False else Config_OK phenotypes)"

definition MapElitesSeed ::
  "('w, 'o, 'g) World \<Rightarrow> 'w \<Rightarrow> 'o MapElitesPhenotype list \<Rightarrow> 'o \<Rightarrow> 'w outcome" where
  "MapElitesSeed W w config org =
     (if \<not> GetSize W w > 0 then (Some AssertFail, [], w)
      else if \<not> Config_OK config then (Some AssertFail, [], w)
      else (None, [], w))"

definition MapElitesGrow ::
  "('w, 'o, 'g) World \<Rightarrow> 'w \<Rightarrow> 'o MapElitesPhenotype list \<Rightarrow> nat \<Rightarrow> 'w outcome" where
  "MapElitesGrow W w config repro_count =
     (if \<not> GetSize W w > 0 then (Some AssertFail, [], w)
      else if \<not> Config_OK config then (Some AssertFail, [], w)
      else (None, [], w))"

section \<open>Notions used in the statements\<close>

text \<open>
  The value of a supplemental function \<open>f\<close> for each slot of the population, the
  maximum of these values over the whole population, and the number of organisms whose
  value is that maximum.
\<close>

definition Eco_values :: "('w, 'o, 'g) World \<Rightarrow> 'w \<Rightarrow> ('o \<Rightarrow> double) \<Rightarrow> double list" where
  "Eco_values W w f = map (\<lambda>org_id. f (GetOrg W w org_id)) [0..<GetSize W w]"

definition Eco_population_max :: "('w, 'o, 'g) World \<Rightarrow> 'w \<Rightarrow> ('o \<Rightarrow> double) \<Rightarrow> double" where
  "Eco_population_max W w f = Max (set (Eco_values W w f))"

definition Eco_ties :: "('w, 'o, 'g) World \<Rightarrow> 'w \<Rightarrow> ('o \<Rightarrow> double) \<Rightarrow> nat" where
  "Eco_ties W w f =
     length (filter (\<lambda>x. x = Eco_population_max W w f) (Eco_values W w f))"

text \<open>
  The rule of the claim for one supplemental function \<open>f\<close> with the pool size
  \<open>pool\<close>, applied to the fitness \<open>a\<close> of the organism \<open>org\<close>: an organism at the
  maximum gets the pool size divided by the number of organisms at the maximum, the
  others keep their fitness.
\<close>

definition Eco_bonus ::
  "('w, 'o, 'g) World \<Rightarrow> 'w \<Rightarrow> ('o \<Rightarrow> double) \<Rightarrow> double \<Rightarrow> xdouble \<Rightarrow> 'o \<Rightarrow> xdouble" where
  "Eco_bonus W w f pool a org =
     (if f org = Eco_population_max W w f
      then dadd a (ddiv pool (double_of_nat (Eco_ties W w f)))
      else a)"


text \<open>
  What \<open>max_extra_fit[ex_id]\<close> and \<open>max_count[ex_id]\<close> hold after the first \<open>k\<close>
  organisms, whose values are \<open>v 0, \<dots>, v (k - 1)\<close>: the largest of 0 and these values,
  and the number of organisms seen with that value.
\<close>

definition Eco_tracked :: "(nat \<Rightarrow> double) \<Rightarrow> nat \<Rightarrow> double \<Rightarrow> nat \<Rightarrow> bool" where
  "Eco_tracked v k m c =
     ((\<forall>org_id<k. v org_id \<le> m) \<and> 0 \<le> m \<and> (m = 0 \<or> (\<exists>org_id<k. v org_id = m))
      \<and> c = length (filter (\<lambda>org_id. v org_id = m) [0..<k]))"

text \<open>
  The winner of a tournament as the spec words it, the first-seen maximum: \<open>b\<close> is
  the contestant at some position of \<open>entries\<close> that no contestant beats and that every
  contestant before that position falls short of.
\<close>

definition first_max :: "(nat \<Rightarrow> double) \<Rightarrow> nat list \<Rightarrow> nat \<Rightarrow> bool" where
  "first_max fit entries b =
     (\<exists>i<length entries. entries ! i = b
        \<and> (\<forall>j<length entries. fit (entries ! j) \<le> fit b)
        \<and> (\<forall>j<i. fit (entries ! j) < fit b))"

text \<open>
  The draws of one call of \<^verbatim>\<open>RouletteSelect\<close>, in order, up to the first draw that
  fails: for each draw the index in use, the parent drawn, the position of its
  offspring, and the index and the world after the birth.
\<close>

record 'w Roulette_draw =
  draw_index :: IndexMap
  draw_parent :: nat
  draw_offspring :: nat
  next_index :: IndexMap
  next_world :: 'w

fun Roulette_trace ::
  "('w, 'o, 'g) World \<Rightarrow> nat \<Rightarrow> IndexMap \<Rightarrow> 'w \<Rightarrow> 'w Roulette_draw list" where
  "Roulette_trace W 0 fitness_index w = []"
| "Roulette_trace W (Suc n) fitness_index w =
     (case Roulette_step W fitness_index w of
        Inl (e, w1) \<Rightarrow> []
      | Inr (parent_id, offspring_id, fitness_index', w2) \<Rightarrow>
          \<lparr>draw_index = fitness_index, draw_parent = parent_id, draw_offspring = offspring_id,
           next_index = fitness_index', next_world = w2\<rparr>
          # Roulette_trace W n fitness_index' w2)"

section \<open>A population for the concrete runs\<close>

text \<open>
  Modelled from the spec: the Population Interface (\<^verbatim>\<open>World.h\<close> is not among the
  sources). Slots hold an organism or are empty; an organism is its genome; the spec
  gives an empty slot no fitness, and its fitness is 0 here; a random occupied id is
  one draw \<^verbatim>\<open>GetUInt(Size)\<close> (the runs that draw an id use a population without empty
  slots); a birth appends the copies to the next generation when the population is
  synchronous and to the slots otherwise, and yields the position of the last copy.
  The theorems on the schemes do not depend on this population: it gives the concrete
  worlds on which they are instantiated.
\<close>

record 'o Pop =
  slots :: "'o option list"
  fit_fun :: "'o \<Rightarrow> double"
  synchronous :: bool
  cache_on :: bool
  rng :: Random
  next_gen :: "'o list"

definition Pop_RandomOrgID :: "'o Pop \<Rightarrow> nat \<times> 'o Pop" where
  "Pop_RandomOrgID w =
     (case GetUInt (length (slots w)) (rng w) of
        Inl e \<Rightarrow> (0, w)
      | Inr (k, r) \<Rightarrow> (unat k, w\<lparr>rng := r\<rparr>))"

definition Pop_DoBirth :: "'o Pop \<Rightarrow> 'o \<Rightarrow> nat \<Rightarrow> nat \<Rightarrow> nat \<times> 'o Pop" where
  "Pop_DoBirth w g parent_id copies =
     (if synchronous w
      then (length (next_gen w) + copies - 1, w\<lparr>next_gen := next_gen w @ replicate copies g\<rparr>)
      else (length (slots w) + copies - 1, w\<lparr>slots := slots w @ replicate copies (Some g)\<rparr>))"

definition Pop_World :: "('o Pop, 'o, 'o) World" where
  "Pop_World =
     \<lparr>GetSize = (\<lambda>w. length (slots w)),
      GetNumOrgs = (\<lambda>w. length (filter (\<lambda>x. x \<noteq> None) (slots w))),
      IsOccupied = (\<lambda>w i. i < length (slots w) \<and> slots w ! i \<noteq> None),
      IsSynchronous = synchronous,
      IsCacheOn = cache_on,
      ClearCache = (\<lambda>w. w),
      GetFitFun = (\<lambda>w. True),
      CalcFitnessID = (\<lambda>w i. if i < length (slots w)
                               then (case slots w ! i of None \<Rightarrow> 0 | Some g \<Rightarrow> fit_fun w g)
                               else 0),
      GetGenomeAt = (\<lambda>w i. the (slots w ! i)),
      GetOrg = (\<lambda>w i. the (slots w ! i)),
      GetRandom = rng,
      SetRandom = (\<lambda>w r. w\<lparr>rng := r\<rparr>),
      GetRandomOrgID = Pop_RandomOrgID,
      DoBirth = Pop_DoBirth,
      OnLexicaseSelect = (\<lambda>w used repro_id. w)\<rparr>"

text \<open>
  Two organisms with genomes 5 and 3, whose fitness is the genome; the generator is
  the one constructed with seed 1.
\<close>

definition pop2 :: "nat Pop" where
  "pop2 = \<lparr>slots = [Some 5, Some 3], fit_fun = of_nat, synchronous = True, cache_on = False,
            rng = Random_new 0 0 1, next_gen = []\<rparr>"

text \<open>The same two organisms with the generator of seed 3.\<close>

definition pop2b :: "nat Pop" where
  "pop2b = \<lparr>slots = [Some 5, Some 3], fit_fun = of_nat, synchronous = True, cache_on = False,
            rng = Random_new 0 0 3, next_gen = []\<rparr>"

text \<open>Three organisms, the last two equally fit; the generator of seed 2.\<close>

definition pop_tie :: "nat Pop" where
  "pop_tie = \<lparr>slots = [Some 3, Some 5, Some 5], fit_fun = of_nat, synchronous = True,
              cache_on = False, rng = Random_new 0 0 2, next_gen = []\<rparr>"



section \<open>Rounding lemmas\<close>

lemma bitlen_powi_bounds:
  assumes "0 < a"
  shows "(2::rat) powi (bitlen a - 1) \<le> of_int a" and "of_int a < (2::rat) powi (bitlen a)"
proof -
  from assms have l: "1 \<le> bitlen a"
    by (simp add: bitlen_alt_def)
  from bitlen_bounds [OF assms]
  have lo: "2 ^ nat (bitlen a - 1) \<le> a" and hi: "a < 2 ^ nat (bitlen a)"
    by simp_all
  have "(of_int (2 ^ nat (bitlen a - 1)) :: rat) \<le> of_int a"
    using lo of_int_le_iff by blast
  then show "(2::rat) powi (bitlen a - 1) \<le> of_int a"
    using l by (simp add: power_int_def)
  have "(of_int a :: rat) < of_int (2 ^ nat (bitlen a))"
    using hi of_int_less_iff by blast
  then show "of_int a < (2::rat) powi (bitlen a)"
    using l by (simp add: power_int_def)
qed

lemma exponent_bounds:
  assumes "0 < q"
  shows "2 powi (exponent q) \<le> q" and "q < 2 powi (exponent q + 1)"
proof -
  obtain a b where ab: "quotient_of q = (a, b)"
    by (cases "quotient_of q")
  then have b: "0 < b" and q: "q = of_int a / of_int b"
    by (simp_all add: quotient_of_denom_pos quotient_of_div)
  with assms have a: "0 < a"
    by (simp add: zero_less_divide_iff)
  define d where "d = bitlen a - bitlen b"
  have e: "exponent q = (if 2 powi d \<le> q then d else d - 1)"
    by (simp add: exponent_def ab d_def)
  note A = bitlen_powi_bounds [OF a] and B = bitlen_powi_bounds [OF b]
  have pb: "(0::rat) < 2 powi (bitlen b)" "(0::rat) < 2 powi (bitlen b - 1)"
    by simp_all
  have lo: "2 powi (d - 1) \<le> q"
  proof -
    have "(2::rat) powi (d - 1) = 2 powi (bitlen a - 1) / 2 powi (bitlen b)"
      by (simp add: d_def power_int_diff)
    also have "\<dots> \<le> of_int a / 2 powi (bitlen b)"
      using A(1) pb by (simp add: divide_right_mono)
    also have "\<dots> \<le> of_int a / of_int b"
      using B(2) a b by (simp add: frac_le)
    finally show ?thesis by (simp add: q)
  qed
  have hi: "q < 2 powi (d + 1)"
  proof -
    have "q = of_int a / of_int b" by (rule q)
    also have "\<dots> \<le> of_int a / 2 powi (bitlen b - 1)"
      using B(1) a pb by (simp add: frac_le)
    also have "\<dots> < 2 powi (bitlen a) / 2 powi (bitlen b - 1)"
      using A(2) pb by (simp add: divide_strict_right_mono)
    also have "\<dots> = 2 powi (d + 1)"
      by (simp add: d_def power_int_diff power_int_add)
    finally show ?thesis .
  qed
  show "2 powi (exponent q) \<le> q"
    using lo by (simp add: e)
  show "q < 2 powi (exponent q + 1)"
    using hi by (auto simp: e not_le)
qed

lemma exponent_unique:
  assumes "0 < q" and "2 powi e \<le> q" and "q < 2 powi (e + 1)"
  shows "exponent q = e"
proof -
  note E = exponent_bounds [OF assms(1)]
  have 1: "\<not> exponent q + 1 \<le> e"
  proof
    assume "exponent q + 1 \<le> e"
    then have "(2::rat) powi (exponent q + 1) \<le> 2 powi e"
      by (rule power_int_increasing) simp
    with assms(2) E(2) show False by simp
  qed
  have 2: "\<not> e + 1 \<le> exponent q"
  proof
    assume "e + 1 \<le> exponent q"
    then have "(2::rat) powi (e + 1) \<le> 2 powi (exponent q)"
      by (rule power_int_increasing) simp
    with assms(3) E(1) show False by simp
  qed
  from 1 2 show ?thesis by simp
qed

lemma round_half_even_le: "of_int (round_half_even m) \<le> m + 1/2"
  unfolding round_half_even_def Let_def
  by (auto simp: not_less) linarith+

lemma round_half_even_ge: "m - 1/2 \<le> of_int (round_half_even m)"
  unfolding round_half_even_def Let_def
  by (auto simp: not_less) linarith+

lemma round_half_even_of_int [simp]: "round_half_even (of_int k) = k"
  by (simp add: round_half_even_def)


lemma ulp_exponent_ge: "- 1074 \<le> ulp_exponent q" "exponent q - 52 \<le> ulp_exponent q"
  by (simp_all add: ulp_exponent_def)

lemma round_double_pos:
  assumes "0 < q"
  shows "round_double q =
    of_int (round_half_even (q / 2 powi (ulp_exponent q))) * 2 powi (ulp_exponent q)"
  using assms by (simp add: round_double_def Let_def)

lemma round_double_neg: "round_double (- q) = - round_double q"
  by (simp add: round_double_def Let_def sgn_minus)

lemma round_double_nonneg:
  assumes "0 \<le> q"
  shows "0 \<le> round_double q"
proof (cases "q = 0")
  case True
  then show ?thesis by (simp add: round_double_def)
next
  case False
  with assms have q: "0 < q" by simp
  define u :: rat where "u = 2 powi (ulp_exponent q)"
  have u: "0 < u" by (simp add: u_def)
  have "- (1/2) \<le> q / u - 1/2"
    using q u by simp
  also have "\<dots> \<le> of_int (round_half_even (q / u))"
    by (rule round_half_even_ge)
  finally have "(- 1 :: rat) < of_int (round_half_even (q / u))"
    by simp
  then have "- 1 < round_half_even (q / u)"
    using of_int_less_iff [where 'a = rat, of "- 1"] by simp
  then have "0 \<le> round_half_even (q / u)" by simp
  then show ?thesis
    using u by (simp add: round_double_pos [OF q] u_def)
qed

lemma round_double_half_ulp:
  assumes "0 < q"
  shows "round_double q \<le> q + 2 powi (ulp_exponent q) / 2"
proof -
  define u :: rat where "u = 2 powi (ulp_exponent q)"
  have u: "0 < u" by (simp add: u_def)
  have "round_double q = of_int (round_half_even (q / u)) * u"
    by (simp add: round_double_pos [OF assms] u_def)
  also have "\<dots> \<le> (q / u + 1/2) * u"
    using round_half_even_le [of "q / u"] u by (simp add: mult_right_mono)
  also have "\<dots> = q + u / 2"
    using u by (simp add: field_simps)
  finally show ?thesis by (simp add: u_def)
qed

lemma exponent_normal:
  assumes "2 powi (- 1022) \<le> q"
  shows "- 1022 \<le> exponent q" "ulp_exponent q = exponent q - 52"
proof -
  have q: "0 < q"
    using assms by (rule less_le_trans [rotated]) simp
  have "\<not> exponent q + 1 \<le> - 1022"
  proof
    assume "exponent q + 1 \<le> - 1022"
    then have "(2::rat) powi (exponent q + 1) \<le> 2 powi (- 1022)"
      by (rule power_int_increasing) simp
    with assms exponent_bounds(2) [OF q] show False by simp
  qed
  then show "- 1022 \<le> exponent q" by simp
  then show "ulp_exponent q = exponent q - 52"
    by (simp add: ulp_exponent_def)
qed

lemma round_double_upper:
  assumes "2 powi (- 1022) \<le> q"
  shows "round_double q \<le> q + q / 2 ^ 53"
proof -
  have q: "0 < q"
    using assms by (rule less_le_trans [rotated]) simp
  define u :: rat where "u = 2 powi (exponent q - 52)"
  have "u = 2 powi (exponent q) / 2 ^ 52"
    by (simp add: u_def power_int_diff)
  also have "\<dots> \<le> q / 2 ^ 52"
    using exponent_bounds(1) [OF q] by (simp add: divide_right_mono)
  finally have uq: "u / 2 \<le> q / 2 ^ 53" by simp
  have "round_double q \<le> q + u / 2"
    using round_double_half_ulp [OF q] by (simp add: exponent_normal(2) [OF assms] u_def)
  also have "\<dots> \<le> q + q / 2 ^ 53"
    using uq by simp
  finally show ?thesis .
qed

lemma exponent_scale:
  assumes "0 < q"
  shows "exponent (q * 2 powi k) = exponent q + k"
proof (rule exponent_unique)
  show "0 < q * 2 powi k" using assms by simp
  show "2 powi (exponent q + k) \<le> q * 2 powi k"
    using exponent_bounds(1) [OF assms] by (simp add: power_int_add mult_right_mono)
  have "q * 2 powi k < 2 powi (exponent q + 1) * 2 powi k"
    using exponent_bounds(2) [OF assms] by (simp add: mult_strict_right_mono)
  then show "q * 2 powi k < 2 powi (exponent q + k + 1)"
    by (simp add: power_int_add mult_ac)
qed

text \<open>A multiple of the spacing at its own magnitude is a number of the format.\<close>

lemma round_double_exact:
  assumes "q = of_int m * 2 powi j" and "ulp_exponent \<bar>q\<bar> \<le> j"
  shows "round_double q = q"
proof (cases "q = 0")
  case True
  then show ?thesis by (simp add: round_double_def)
next
  case False
  define e where "e = ulp_exponent \<bar>q\<bar>"
  define n where "n = nat (j - e)"
  have j: "j = e + int n"
    using assms(2) by (simp add: n_def e_def)
  have "\<bar>q\<bar> = of_int \<bar>m\<bar> * 2 powi j"
    by (simp add: assms(1) abs_mult)
  also have "\<dots> = of_int \<bar>m\<bar> * (2 powi e * 2 ^ n)"
    by (simp add: j power_int_add)
  finally have "\<bar>q\<bar> / 2 powi e = of_int (\<bar>m\<bar> * 2 ^ n)"
    by simp
  then have "round_half_even (\<bar>q\<bar> / 2 powi e) = \<bar>m\<bar> * 2 ^ n"
    by (simp only: round_half_even_of_int)
  then have "round_double q = sgn q * (of_int (\<bar>m\<bar> * 2 ^ n) * 2 powi e)"
    using False by (simp add: round_double_def e_def Let_def)
  also have "of_int (\<bar>m\<bar> * 2 ^ n) * 2 powi e = \<bar>q\<bar>"
    by (simp add: assms(1) abs_mult j power_int_add)
  finally show ?thesis
    by (simp add: sgn_mult_abs)
qed

lemma exponent_below:
  assumes "0 < q" "q < 2 powi k"
  shows "exponent q < k"
proof (rule ccontr)
  assume "\<not> exponent q < k"
  then have "k \<le> exponent q" by simp
  then have "(2::rat) powi k \<le> 2 powi (exponent q)"
    by (rule power_int_increasing) simp
  with assms(2) exponent_bounds(1) [OF assms(1)] show False by simp
qed

lemma round_double_int_scaled:
  assumes "\<bar>m\<bar> < 2 ^ 53" and "- 1074 \<le> j"
  shows "round_double (of_int m * 2 powi j) = of_int m * 2 powi j"
proof (cases "m = 0")
  case True
  then show ?thesis by (simp add: round_double_def)
next
  case False
  define q :: rat where "q = of_int m * 2 powi j"
  have a: "\<bar>q\<bar> = of_int \<bar>m\<bar> * 2 powi j"
    by (simp add: q_def abs_mult)
  have pos: "0 < \<bar>q\<bar>"
    using False by (simp add: q_def)
  have "(of_int \<bar>m\<bar> :: rat) < of_int (2 ^ 53)"
    using assms(1) of_int_less_iff by blast
  then have "(of_int \<bar>m\<bar> :: rat) < 2 powi 53" by simp
  then have "of_int \<bar>m\<bar> * (2::rat) powi j < 2 powi 53 * 2 powi j"
    by (intro mult_strict_right_mono) simp_all
  then have "\<bar>q\<bar> < 2 powi (53 + j)"
    by (simp add: a power_int_add)
  from exponent_below [OF pos this] have "exponent \<bar>q\<bar> - 52 \<le> j" by simp
  with assms(2) have "ulp_exponent \<bar>q\<bar> \<le> j"
    by (simp add: ulp_exponent_def)
  with q_def have "round_double q = q"
    by (rule round_double_exact)
  then show ?thesis by (simp add: q_def)
qed

lemma round_double_of_int:
  assumes "\<bar>k\<bar> < 2 ^ 53"
  shows "round_double (of_int k) = of_int k"
  using round_double_int_scaled [OF assms, of 0] by simp

lemma round_double_repr:
  assumes "round_double q = q"
  shows "\<exists>m. q = of_int m * 2 powi (ulp_exponent \<bar>q\<bar>)"
proof (cases "q = 0")
  case True
  then have "q = of_int 0 * 2 powi (ulp_exponent \<bar>q\<bar>)" by simp
  then show ?thesis by (rule exI)
next
  case False
  define r where "r = round_half_even (\<bar>q\<bar> / 2 powi (ulp_exponent \<bar>q\<bar>))"
  have s: "sgn q = of_int (sgn (if 0 < q then 1 else - 1 :: int))"
    using False by (simp add: sgn_if)
  from assms False have "q = sgn q * of_int r * 2 powi (ulp_exponent \<bar>q\<bar>)"
    by (simp add: round_double_def Let_def r_def)
  then have "q = of_int (sgn (if 0 < q then 1 else - 1 :: int) * r) * 2 powi (ulp_exponent \<bar>q\<bar>)"
    by (simp add: s)
  then show ?thesis by (rule exI)
qed

text \<open>Scaling a number of the format up by a power of two is exact.\<close>

lemma round_double_scale_up:
  assumes "round_double q = q" and "0 \<le> k"
  shows "round_double (q * 2 powi k) = q * 2 powi k"
proof (cases "q = 0")
  case True
  then show ?thesis by (simp add: round_double_def)
next
  case False
  from round_double_repr [OF assms(1)] obtain m where
    m: "q = of_int m * 2 powi (ulp_exponent \<bar>q\<bar>)" by blast
  have pos: "0 < \<bar>q\<bar>" using False by simp
  have "\<bar>q * 2 powi k\<bar> = \<bar>q\<bar> * 2 powi k"
    by (simp add: abs_mult)
  then have "exponent \<bar>q * 2 powi k\<bar> = exponent \<bar>q\<bar> + k"
    by (simp add: exponent_scale [OF pos])
  then have u: "ulp_exponent \<bar>q * 2 powi k\<bar> \<le> ulp_exponent \<bar>q\<bar> + k"
    using assms(2) by (simp add: ulp_exponent_def)
  have "q * 2 powi k = of_int m * 2 powi (ulp_exponent \<bar>q\<bar> + k)"
    using m by (simp add: power_int_add)
  then show ?thesis using u by (rule round_double_exact)
qed

text \<open>
  Rounding does not leave the finite range: a result within \<open>DBL_MAX\<close> rounds to a
  number within \<open>DBL_MAX\<close>. So a product with a factor of magnitude at most 1 and a
  quotient by a divisor of magnitude at least 1 are finite when the other operand is.
\<close>

lemma round_half_even_mono_int:
  assumes "x \<le> of_int n"
  shows "round_half_even x \<le> n"
proof -
  have "(of_int (round_half_even x) :: rat) \<le> x + 1/2" by (rule round_half_even_le)
  also have "\<dots> \<le> of_int n + 1/2" using assms by simp
  finally have "(of_int (round_half_even x) :: rat) < of_int (n + 1)" by simp
  then have "round_half_even x < n + 1" by (simp only: of_int_less_iff)
  then show ?thesis by simp
qed

lemma round_double_bounded_pos:
  assumes "0 < q" and "q \<le> DBL_MAX"
  shows "round_double q \<le> DBL_MAX"
proof -
  have "DBL_MAX < (2::rat) powi 1024"
    by (simp add: DBL_MAX_def)
  with assms(2) have "q < 2 powi 1024" by simp
  from exponent_below [OF assms(1) this] have "ulp_exponent q \<le> 971"
    by (simp add: ulp_exponent_def)
  define j where "j = nat (971 - ulp_exponent q)"
  define u :: rat where "u = 2 powi (ulp_exponent q)"
  have u: "0 < u" by (simp add: u_def)
  have e: "971 = ulp_exponent q + int j"
    using \<open>ulp_exponent q \<le> 971\<close> by (simp add: j_def)
  have "(2::rat) powi 971 = u * 2 ^ j"
    by (subst e) (simp add: u_def power_int_add)
  then have M: "DBL_MAX = of_int ((2 ^ 53 - 1) * 2 ^ j) * u"
    by (simp add: DBL_MAX_def)
  have "q / u \<le> DBL_MAX / u"
    using assms(2) u by (simp add: divide_right_mono)
  also have "DBL_MAX / u = of_int ((2 ^ 53 - 1) * 2 ^ j)"
    using u by (simp add: M)
  finally have "round_half_even (q / u) \<le> (2 ^ 53 - 1) * 2 ^ j"
    by (rule round_half_even_mono_int)
  then have "(of_int (round_half_even (q / u)) :: rat) \<le> of_int ((2 ^ 53 - 1) * 2 ^ j)"
    by (simp only: of_int_le_iff)
  then have "of_int (round_half_even (q / u)) * u \<le> of_int ((2 ^ 53 - 1) * 2 ^ j) * u"
    using u by (intro mult_right_mono) simp_all
  then show ?thesis
    by (simp only: round_double_pos [OF assms(1)] u_def [symmetric] M [symmetric])
qed

lemma round_double_bounded:
  assumes "\<bar>q\<bar> \<le> DBL_MAX"
  shows "\<bar>round_double q\<bar> \<le> DBL_MAX"
proof -
  consider "q = 0" | "0 < q" | "0 < - q" by linarith
  then show ?thesis
  proof cases
    case 1
    then show ?thesis by (simp add: round_double_def DBL_MAX_def)
  next
    case 2
    with assms have "round_double q \<le> DBL_MAX" by (intro round_double_bounded_pos) simp_all
    moreover have "0 \<le> round_double q" using 2 by (intro round_double_nonneg) simp
    ultimately show ?thesis by simp
  next
    case 3
    with assms have "round_double (- q) \<le> DBL_MAX" by (intro round_double_bounded_pos) simp_all
    moreover have "0 \<le> round_double (- q)" using 3 by (intro round_double_nonneg) simp
    ultimately show ?thesis by (simp add: round_double_neg)
  qed
qed

lemma dmul_finite:
  assumes "\<bar>x\<bar> \<le> 1" and "\<bar>y\<bar> \<le> DBL_MAX"
  shows "\<bar>dmul x y\<bar> \<le> DBL_MAX"
proof -
  have "\<bar>x * y\<bar> = \<bar>x\<bar> * \<bar>y\<bar>" by (rule abs_mult)
  also have "\<dots> \<le> 1 * \<bar>y\<bar>" using assms(1) by (intro mult_right_mono) simp_all
  finally have "\<bar>x * y\<bar> \<le> DBL_MAX" using assms(2) by simp
  then show ?thesis unfolding dmul_def by (rule round_double_bounded)
qed

lemma ddiv_finite:
  assumes "1 \<le> \<bar>y\<bar>" and "\<bar>x\<bar> \<le> DBL_MAX"
  shows "\<bar>ddiv x y\<bar> \<le> DBL_MAX"
proof -
  have "\<bar>x / y\<bar> = \<bar>x\<bar> / \<bar>y\<bar>" by (rule abs_divide)
  also have "\<dots> \<le> \<bar>x\<bar> / 1" using assms(1) by (intro divide_left_mono) simp_all
  finally have "\<bar>x / y\<bar> \<le> DBL_MAX" using assms(2) by simp
  then show ?thesis unfolding ddiv_def by (rule round_double_bounded)
qed

lemma double_of_nat_ge_1:
  assumes "0 < n"
  shows "1 \<le> double_of_nat n"
proof -
  define q :: rat where "q = of_nat n"
  have q1: "1 \<le> q" using assms by (simp add: q_def)
  then have q: "0 < q" by simp
  have "(2::rat) powi (- 1022) \<le> 1"
    by (simp add: power_int_minus field_simps)
  from this q1 have "2 powi (- 1022) \<le> q" by (rule order_trans)
  from exponent_normal(2) [OF this] have ul: "ulp_exponent q = exponent q - 52" .
  have "\<not> exponent q < 0"
  proof
    assume "exponent q < 0"
    then have "exponent q + 1 \<le> 0" by simp
    then have "(2::rat) powi (exponent q + 1) \<le> 2 powi 0"
      by (rule power_int_increasing) simp
    with exponent_bounds(2) [OF q] q1 show False by simp
  qed
  then have e0: "0 \<le> exponent q" by simp
  define u :: rat where "u = 2 powi (exponent q - 52)"
  have u: "0 < u" by (simp add: u_def)
  have "(2::rat) powi (exponent q) = of_int (2 ^ 52) * u"
    by (simp add: u_def power_int_diff)
  then have "of_int (2 ^ 52) * u \<le> q"
    using exponent_bounds(1) [OF q] by simp
  then have "(of_int (2 ^ 52) :: rat) \<le> q / u"
    using u by (simp add: pos_le_divide_eq)
  then have "(of_int (2 ^ 52) :: rat) - 1/2 \<le> q / u - 1/2" by (rule diff_right_mono)
  also have "\<dots> \<le> of_int (round_half_even (q / u))" by (rule round_half_even_ge)
  finally have "(of_int (2 ^ 52 - 1) :: rat) < of_int (round_half_even (q / u))" by simp
  then have "2 ^ 52 - 1 < round_half_even (q / u)" by (simp only: of_int_less_iff)
  then have "2 ^ 52 \<le> round_half_even (q / u)" by simp
  then have "(of_int (2 ^ 52) :: rat) \<le> of_int (round_half_even (q / u))"
    by (simp only: of_int_le_iff)
  then have "of_int (2 ^ 52) * u \<le> of_int (round_half_even (q / u)) * u"
    using u by (intro mult_right_mono) simp_all
  then have "2 powi (exponent q) \<le> round_double q"
    by (simp add: round_double_pos [OF q] ul u_def power_int_diff)
  moreover have "(2::rat) powi 0 \<le> 2 powi (exponent q)"
    using e0 by (intro power_int_increasing) simp_all
  ultimately show ?thesis
    by (simp add: double_of_nat_def q_def)
qed

section \<open>The generator: conversions that are exact\<close>

lemma double_of_nat_exact:
  assumes "n < 2 ^ 53"
  shows "double_of_nat n = of_nat n"
proof -
  have "\<bar>int n\<bar> < 2 ^ 53" using assms by simp
  from round_double_of_int [OF this] show ?thesis
    by (simp add: double_of_nat_def)
qed

lemma double_of_u32_exact: "double_of_nat (unat (g :: u32)) = of_nat (unat g)"
proof -
  have "unat g < 2 ^ 32" using unsigned_less [of g] by simp
  then have "unat g < 2 ^ 53" by simp
  then show ?thesis by (rule double_of_nat_exact)
qed

lemma double_of_RAND_CAP: "double_of_nat RAND_CAP = 4294967296"
  by (simp add: RAND_CAP_def double_of_nat_exact)

lemma dmul_pow2:
  assumes "is_double p"
  shows "dmul p 4294967296 = p * 4294967296"
proof -
  from assms have "round_double p = p" by (simp add: is_double_def)
  then have "round_double (p * 2 powi 32) = p * 2 powi 32"
    by (rule round_double_scale_up) simp
  then show ?thesis by (simp add: dmul_def)
qed

lemma is_double_0 [simp]: "is_double 0"
  by (simp add: is_double_def round_double_def DBL_MAX_def)

lemma is_double_1 [simp]: "is_double 1"
  using round_double_of_int [of 1] by (simp add: is_double_def DBL_MAX_def)

lemma is_double_half: "is_double (1/2)"
proof -
  have "round_double (1/2) = 1/2" by code_simp
  then show ?thesis by (simp add: is_double_def DBL_MAX_def)
qed

lemma P_eq:
  assumes "is_double p" "0 \<le> p" "p \<le> 1"
  shows "P p r = Inr (of_nat (unat (fst (Get r))) < p * 2 ^ 32, snd (Get r))"
  using assms
  by (simp add: P_def double_of_u32_exact double_of_RAND_CAP dmul_pow2 split: prod.split
      del: of_nat_unat)

lemma u32_rat_less: "(of_nat (unat (g :: u32)) :: rat) < 2 ^ 32"
proof -
  have "unat g < 2 ^ 32" using unsigned_less [of g] by simp
  then have "(of_nat (unat g) :: rat) < of_nat (2 ^ 32)"
    using of_nat_less_iff by blast
  then show ?thesis by simp
qed


lemma GetDouble_exact:
  "GetDouble r = (of_nat (unat (fst (Get r))) / 2 ^ 32, snd (Get r))"
proof -
  let ?g = "of_nat (unat (fst (Get r))) :: rat"
  have "unat (fst (Get r)) < 2 ^ 32" using unsigned_less [of "fst (Get r)"] by simp
  then have "unat (fst (Get r)) < 2 ^ 53" by simp
  then have "int (unat (fst (Get r))) < int (2 ^ 53)" by (simp only: of_nat_less_iff)
  then have "\<bar>int (unat (fst (Get r)))\<bar> < 2 ^ 53" by (simp del: of_nat_unat)
  then have "round_double (of_int (int (unat (fst (Get r)))) * 2 powi (- 32))
      = of_int (int (unat (fst (Get r)))) * 2 powi (- 32)"
    by (rule round_double_int_scaled) simp
  then have "round_double (?g / 4294967296) = ?g / 4294967296"
    by (simp add: power_int_minus field_simps del: of_nat_unat)
  then show ?thesis
    by (simp add: GetDouble_def ddiv_def double_of_u32_exact double_of_RAND_CAP
        case_prod_beta del: of_nat_unat)
qed

lemma GetDouble_bounds:
  "0 \<le> fst (GetDouble r)" "fst (GetDouble r) \<le> 1 - 1 / 2 ^ 32"
proof -
  let ?n = "unat (fst (Get r))"
  show "0 \<le> fst (GetDouble r)"
    by (simp add: GetDouble_exact del: of_nat_unat)
  have "?n < 2 ^ 32" using unsigned_less [of "fst (Get r)"] by simp
  then have "?n \<le> 2 ^ 32 - 1" by simp
  then have "(of_nat ?n :: rat) \<le> of_nat (2 ^ 32 - 1)"
    using of_nat_le_iff by blast
  then show "fst (GetDouble r) \<le> 1 - 1 / 2 ^ 32"
    by (simp add: GetDouble_exact del: of_nat_unat)
qed

text \<open>
  The products and the quotients of the modelled code stay finite on finite operands:
  the scaled draw of \<^verbatim>\<open>GetDouble(max)\<close> and \<^verbatim>\<open>GetUInt(max)\<close>, the threshold of
  \<^verbatim>\<open>P\<close>, and the share of a pool of \<^verbatim>\<open>EcoSelect\<close>.
\<close>

lemma finite_results:
  "\<bar>mx\<bar> \<le> DBL_MAX \<Longrightarrow> \<bar>fst (GetDouble_max mx r)\<bar> \<le> DBL_MAX"
  "of_nat n \<le> DBL_MAX \<Longrightarrow> \<bar>dmul (fst (GetDouble r)) (double_of_nat n)\<bar> \<le> DBL_MAX"
  "0 \<le> p \<Longrightarrow> p \<le> 1 \<Longrightarrow> \<bar>dmul p (double_of_nat RAND_CAP)\<bar> \<le> DBL_MAX"
  "0 < c \<Longrightarrow> \<bar>pool\<bar> \<le> DBL_MAX \<Longrightarrow> \<bar>ddiv pool (double_of_nat c)\<bar> \<le> DBL_MAX"
proof -
  have x: "\<bar>fst (GetDouble r)\<bar> \<le> 1"
    using GetDouble_bounds [of r] by simp
  show "\<bar>fst (GetDouble_max mx r)\<bar> \<le> DBL_MAX" if "\<bar>mx\<bar> \<le> DBL_MAX"
    using dmul_finite [OF x that] by (simp add: GetDouble_max_def case_prod_beta)
  show "\<bar>dmul (fst (GetDouble r)) (double_of_nat n)\<bar> \<le> DBL_MAX" if "of_nat n \<le> DBL_MAX"
  proof -
    from that have "\<bar>of_nat n :: rat\<bar> \<le> DBL_MAX" by simp
    then have "\<bar>double_of_nat n\<bar> \<le> DBL_MAX"
      unfolding double_of_nat_def by (rule round_double_bounded)
    with x show ?thesis by (rule dmul_finite)
  qed
  show "\<bar>dmul p (double_of_nat RAND_CAP)\<bar> \<le> DBL_MAX" if "0 \<le> p" "p \<le> 1"
  proof -
    from that have "\<bar>p\<bar> \<le> 1" by simp
    moreover have "\<bar>double_of_nat RAND_CAP\<bar> \<le> DBL_MAX"
      by (simp add: double_of_RAND_CAP DBL_MAX_def)
    ultimately show ?thesis by (rule dmul_finite)
  qed
  show "\<bar>ddiv pool (double_of_nat c)\<bar> \<le> DBL_MAX" if "0 < c" "\<bar>pool\<bar> \<le> DBL_MAX"
  proof -
    from double_of_nat_ge_1 [OF that(1)] have "1 \<le> \<bar>double_of_nat c\<bar>" by simp
    from this that(2) show ?thesis by (rule ddiv_finite)
  qed
qed

lemma round_double_upper':
  assumes "2 powi (- 1022) \<le> q"
  shows "round_double q \<le> q * (1 + 1 / 2 ^ 53)"
  using round_double_upper [OF assms] by (simp add: field_simps)

lemma round_double_tiny:
  assumes "0 \<le> q" "q < 2 powi (- 1022)"
  shows "round_double q < 1"
proof (cases "q = 0")
  case True
  then show ?thesis by (simp add: round_double_def)
next
  case False
  with assms have q: "0 < q" by simp
  from exponent_below [OF q assms(2)] have "ulp_exponent q = - 1074"
    by (simp add: ulp_exponent_def)
  with round_double_half_ulp [OF q] have "round_double q \<le> q + 2 powi (- 1074) / 2"
    by simp
  also have "\<dots> < 2 powi (- 1022) + 2 powi (- 1074) / 2"
    using assms(2) by simp
  also have "\<dots> < (1::rat)"
    by (simp add: power_int_minus field_simps)
  finally show ?thesis .
qed

lemma scaled_below:
  assumes x: "0 \<le> x" "x \<le> 1 - 1 / 2 ^ 32" and n: "0 < n"
  shows "dmul x (double_of_nat n) < of_nat n"
proof -
  let ?e = "1 + 1 / 2 ^ 53 :: rat"
  let ?n = "of_nat n :: rat"
  have npos: "0 < ?n" using n by simp
  have n1: "1 \<le> ?n" using n by simp
  have D0: "0 \<le> double_of_nat n"
    by (simp add: double_of_nat_def round_double_nonneg)
  have "(2::rat) powi (- 1022) \<le> 1"
    by (simp add: power_int_minus field_simps)
  from this n1 have "(2::rat) powi (- 1022) \<le> ?n" by (rule order_trans)
  then have D: "double_of_nat n \<le> ?n * ?e"
    unfolding double_of_nat_def by (rule round_double_upper')
  have xd: "0 \<le> x * double_of_nat n"
    using x D0 by simp
  show ?thesis
  proof (cases "x * double_of_nat n < 2 powi (- 1022)")
    case True
    from round_double_tiny [OF xd True] have "dmul x (double_of_nat n) < 1"
      by (simp add: dmul_def)
    with n1 show ?thesis by simp
  next
    case False
    then have big: "2 powi (- 1022) \<le> x * double_of_nat n" by simp
    have "x * double_of_nat n \<le> (1 - 1 / 2 ^ 32) * (?n * ?e)"
      using x D D0 by (intro mult_mono) simp_all
    then have "x * double_of_nat n * ?e \<le> (1 - 1 / 2 ^ 32) * (?n * ?e) * ?e"
      by (intro mult_right_mono) simp_all
    moreover have "dmul x (double_of_nat n) \<le> x * double_of_nat n * ?e"
      unfolding dmul_def using big by (rule round_double_upper')
    moreover have "(1 - 1 / 2 ^ 32) * (?n * ?e) * ?e = ?n * ((1 - 1 / 2 ^ 32) * ?e * ?e)"
      by (simp add: mult_ac)
    moreover have "(1 - 1 / 2 ^ 32) * ?e * ?e < (1::rat)"
      by simp
    then have "?n * ((1 - 1 / 2 ^ 32) * ?e * ?e) < ?n * 1"
      using npos by (intro mult_strict_left_mono)
    ultimately show ?thesis by simp
  qed
qed

lemma scaled_nonneg:
  assumes "0 \<le> x"
  shows "0 \<le> dmul x (double_of_nat n)"
proof -
  have "0 \<le> double_of_nat n"
    by (simp add: double_of_nat_def round_double_nonneg)
  with assms show ?thesis
    by (simp add: dmul_def round_double_nonneg)
qed

lemma GetUInt_alt:
  "GetUInt n r = (case u32_of_double (dmul (fst (GetDouble r)) (double_of_nat n)) of
                    Inl e \<Rightarrow> Inl e | Inr k \<Rightarrow> Inr (k, snd (Get r)))"
  by (simp add: GetUInt_def case_prod_beta GetDouble_exact)

lemma GetUInt_exact_small:
  assumes "n \<le> 2 ^ 21"
  shows "GetUInt n r = Inr (of_nat (unat (fst (Get r)) * n div 2 ^ 32), snd (Get r))"
proof -
  let ?g = "unat (fst (Get r))"
  have g: "?g < 2 ^ 32" using unsigned_less [of "fst (Get r)"] by simp
  from g have "?g \<le> 2 ^ 32 - 1" by simp
  then have "?g * n \<le> (2 ^ 32 - 1) * 2 ^ 21"
    using assms by (intro mult_mono) simp_all
  then have gn: "?g * n < 2 ^ 53" by simp
  have n: "double_of_nat n = of_nat n"
    using assms by (intro double_of_nat_exact) simp
  have "int (?g * n) < int (2 ^ 53)" using gn by (simp only: of_nat_less_iff)
  then have "\<bar>int (?g * n)\<bar> < 2 ^ 53" by simp
  then have "round_double (of_int (int (?g * n)) * 2 powi (- 32))
      = of_int (int (?g * n)) * 2 powi (- 32)"
    by (rule round_double_int_scaled) simp
  then have "round_double (of_nat (?g * n) / 2 ^ 32) = of_nat (?g * n) / 2 ^ 32"
    by (simp add: power_int_minus field_simps del: of_nat_unat of_nat_mult)
  then have y: "dmul (fst (GetDouble r)) (double_of_nat n) = of_nat (?g * n) / of_nat (2 ^ 32)"
    by (simp add: dmul_def n GetDouble_exact del: of_nat_unat)
  have "(0::rat) \<le> of_nat (?g * n) / of_nat (2 ^ 32)"
    by (simp only: of_nat_0_le_iff divide_nonneg_nonneg)
  then have "double_trunc (of_nat (?g * n) / of_nat (2 ^ 32))
      = \<lfloor>(of_nat (?g * n) :: rat) / of_nat (2 ^ 32)\<rfloor>"
    by (simp only: double_trunc_def if_True)
  then have t: "double_trunc (of_nat (?g * n) / of_nat (2 ^ 32)) = int (?g * n div 2 ^ 32)"
    by (simp only: floor_divide_of_nat_eq)
  have "?g * n div 2 ^ 32 \<le> ?g * n" by simp
  have "?g * n div 2 ^ 32 < 2 ^ 32"
    using gn by (simp add: div_less_iff_less_mult less_mult_imp_div_less)
  then have "int (?g * n div 2 ^ 32) < int (2 ^ 32)" by (simp only: of_nat_less_iff)
  then have "int (?g * n div 2 ^ 32) < 2 ^ 32" by simp
  then have u: "u32_of_double (of_nat (?g * n) / of_nat (2 ^ 32)) = Inr (of_nat (?g * n div 2 ^ 32))"
    unfolding u32_of_double_def t by simp
  show ?thesis
    by (simp only: GetUInt_alt y u sum.case)
qed

text \<open>The first draws of the generators used in the concrete runs.\<close>

lemma Get_seed1: "fst (Get (Random_new 0 0 1)) = 3048033998"
  by (simp add: Random_new_def ResetSeed_def Get_def STEP_SIZE_def Let_def)

lemma Get_seed3:
  "fst (Get (Random_new 0 0 3)) = 3048033998"
  "fst (Get (snd (Get (Random_new 0 0 3)))) = 1668192772"
  by (simp_all add: Random_new_def ResetSeed_def Get_def STEP_SIZE_def Let_def)

lemma Get_seed2:
  "fst (Get (Random_new 0 0 2)) = 3048033998"
  "fst (Get (snd (Get (Random_new 0 0 2)))) = 2360958668"
  "fst (Get (snd (Get (snd (Get (Random_new 0 0 2)))))) = 1915337669"
  by (simp_all add: Random_new_def ResetSeed_def Get_def STEP_SIZE_def Let_def)


lemma GetUInt_seed1: "GetUInt 10 (Random_new 0 0 1) = Inr (7, snd (Get (Random_new 0 0 1)))"
proof -
  have x: "fst (GetDouble (Random_new 0 0 1)) = 3048033998 / 4294967296"
    by (simp add: GetDouble_exact Get_seed1)
  have m: "dmul (3048033998 / 4294967296) (double_of_nat 10) = 7620084995 / 1073741824"
    by code_simp
  have t: "double_trunc (7620084995 / 1073741824) = 7"
    by code_simp
  have c: "u32_of_double (7620084995 / 1073741824) = Inr 7"
    unfolding u32_of_double_def t by simp
  show ?thesis
    by (simp only: GetUInt_alt x m c sum.case)
qed

section \<open>The generator: the claims\<close>

text \<open>
  C5. For a probability \<open>p\<close> in \<open>[0, 1]\<close> (a \<^verbatim>\<open>double\<close>), \<^verbatim>\<open>P(p)\<close> makes one raw draw
  and is true exactly when that draw is below \<open>p * 2^32\<close>; hence \<^verbatim>\<open>P(0.0)\<close> is false and
  \<^verbatim>\<open>P(1.0)\<close> is true in every state of the generator. A \<open>p\<close> outside \<open>[0, 1]\<close> fails
  the assertion.
\<close>

theorem P_threshold:
  "(is_double p \<and> 0 \<le> p \<and> p \<le> 1 \<longrightarrow>
      P p r = Inr (of_nat (unat (fst (Get r))) < p * 2 ^ 32, snd (Get r)))
   \<and> P 0 r = Inr (False, snd (Get r))
   \<and> P 1 r = Inr (True, snd (Get r))
   \<and> (p < 0 \<or> 1 < p \<longrightarrow> P p r = Inl AssertFail)"
proof (intro conjI impI)
  assume "p < 0 \<or> 1 < p"
  then show "P p r = Inl AssertFail"
    by (auto simp: P_def)
next
  assume "is_double p \<and> 0 \<le> p \<and> p \<le> 1"
  then show "P p r = Inr (of_nat (unat (fst (Get r))) < p * 2 ^ 32, snd (Get r))"
    by (simp add: P_eq del: of_nat_unat)
next
  show "P 0 r = Inr (False, snd (Get r))"
    by (simp add: P_eq del: of_nat_unat)
next
  show "P 1 r = Inr (True, snd (Get r))"
    using u32_rat_less [of "fst (Get r)"] by (simp add: P_eq del: of_nat_unat)
qed


theorem P_threshold_witness:
  "is_double (1/2) \<and> (0::rat) \<le> 1/2 \<and> (1/2::rat) \<le> 1
   \<and> fst (Get (Random_new 0 0 1)) = 3048033998
   \<and> P (1/2) (Random_new 0 0 1) = Inr (False, snd (Get (Random_new 0 0 1)))
   \<and> P 0 (Random_new 0 0 1) = Inr (False, snd (Get (Random_new 0 0 1)))
   \<and> P 1 (Random_new 0 0 1) = Inr (True, snd (Get (Random_new 0 0 1)))"
proof -
  have d: "is_double (1/2)" by (rule is_double_half)
  note g = Get_seed1
  show ?thesis
    using P_threshold [of "1/2" "Random_new 0 0 1"] d g by simp
qed

text \<open>
  C6. For \<open>n > 0\<close> (an unsigned integer), \<^verbatim>\<open>GetUInt(n)\<close> makes one raw draw and yields
  a value below \<open>n\<close>. The product of the uniform double and \<open>n\<close> is rounded to
  binary64 before it is truncated; the rounding never reaches \<open>n\<close>. The conversion to
  \<^verbatim>\<open>uint32_t\<close> is defined whenever \<open>n \<le> 2^32\<close>; it can only be undefined for a
  larger \<open>n\<close>. For \<open>n \<le> 2^21\<close> the product is exact and the value is the integer
  part of draw times \<open>n\<close> over \<open>2^32\<close>.
\<close>

theorem GetUInt_range:
  assumes "0 < n"
  shows "(case GetUInt n r of
            Inr (k, r') \<Rightarrow> unat k < n \<and> r' = snd (Get r)
          | Inl e \<Rightarrow> 2 ^ 32 < n)
         \<and> (n \<le> 2 ^ 21 \<longrightarrow>
               GetUInt n r = Inr (of_nat (unat (fst (Get r)) * n div 2 ^ 32), snd (Get r)))"
proof (intro conjI impI)
  assume "n \<le> 2 ^ 21"
  then show "GetUInt n r = Inr (of_nat (unat (fst (Get r)) * n div 2 ^ 32), snd (Get r))"
    by (rule GetUInt_exact_small)
next
  define y where "y = dmul (fst (GetDouble r)) (double_of_nat n)"
  have y0: "0 \<le> y"
    unfolding y_def using GetDouble_bounds(1) by (rule scaled_nonneg)
  have yn: "y < of_nat n"
    unfolding y_def using GetDouble_bounds assms by (rule scaled_below)
  have t: "double_trunc y = \<lfloor>y\<rfloor>" using y0 by (simp add: double_trunc_def)
  have f0: "0 \<le> \<lfloor>y\<rfloor>" using y0 by simp
  have fn: "\<lfloor>y\<rfloor> < int n"
    using yn by (simp add: floor_less_iff)
  have G: "GetUInt n r = (case u32_of_double y of Inl e \<Rightarrow> Inl e | Inr k \<Rightarrow> Inr (k, snd (Get r)))"
    by (simp add: GetUInt_def y_def case_prod_beta GetDouble_exact)
  show "case GetUInt n r of
            Inr (k, r') \<Rightarrow> unat k < n \<and> r' = snd (Get r)
          | Inl e \<Rightarrow> 2 ^ 32 < n"
  proof (cases "\<lfloor>y\<rfloor> < 2 ^ 32")
    case True
    then have u: "u32_of_double y = Inr (word_of_int \<lfloor>y\<rfloor>)"
      using f0 by (simp add: u32_of_double_def t)
    have "unat (word_of_int \<lfloor>y\<rfloor> :: u32) = nat \<lfloor>y\<rfloor>"
      using True f0 by (simp add: unat_eq_nat_uint uint_word_of_int take_bit_int_eq_self)
    also have "\<dots> < n" using fn f0 by linarith
    finally show ?thesis by (simp add: G u)
  next
    case False
    then have u: "u32_of_double y = Inl Undefined"
      by (simp add: u32_of_double_def t)
    from False have "(4294967296::int) \<le> \<lfloor>y\<rfloor>" by (simp only: not_less) simp
    with fn have "(4294967296::nat) < n" by linarith
    then show ?thesis by (simp add: G u)
  qed
qed


theorem GetUInt_range_witness:
  "(0::nat) < 10 \<and> (10::nat) \<le> 2 ^ 21
   \<and> GetUInt 10 (Random_new 0 0 1) = Inr (7, snd (Get (Random_new 0 0 1)))
   \<and> unat (7::u32) < 10
   \<and> (7::nat) = 3048033998 * 10 div 2 ^ 32"
  using GetUInt_range [of 10 "Random_new 0 0 1"] GetUInt_seed1 by simp










lemma Get_seq_cong:
  assumes "value r1 = value r2" "weyl_state r1 = weyl_state r2"
  shows "Get_seq n r1 = Get_seq n r2"
  using assms
proof (induction n arbitrary: r1 r2)
  case 0
  show ?case by simp
next
  case (Suc n)
  have g: "fst (Get r1) = fst (Get r2)"
    using Suc.prems by (simp add: Get_def Let_def)
  have "Get_seq n (snd (Get r1)) = Get_seq n (snd (Get r2))"
    using Suc.prems by (intro Suc.IH) (simp_all add: Get_def Let_def)
  with g show ?case by (simp add: case_prod_beta)
qed

text \<open>
  C9, as amended. \<^verbatim>\<open>ResetSeed\<close> with a seed above 0 sets the Weyl state from the seed
  alone and leaves the squaring value as it is. Two generators whose squaring values
  agree, reset with the same positive seed, give the same draws, whatever the clock and
  their addresses; so do two generators constructed with the same positive seed.
\<close>

theorem same_seed_same_draws:
  "(0 < sint seed \<and> value r1 = value r2 \<longrightarrow>
      Get_seq n (ResetSeed t1 m1 seed r1) = Get_seq n (ResetSeed t2 m2 seed r2))
   \<and> (0 < sint s \<longrightarrow> Get_seq n (Random_new t1 m1 s) = Get_seq n (Random_new t2 m2 s))"
proof (intro conjI impI)
  assume "0 < sint seed \<and> value r1 = value r2"
  then show "Get_seq n (ResetSeed t1 m1 seed r1) = Get_seq n (ResetSeed t2 m2 seed r2)"
    by (intro Get_seq_cong) (simp_all add: ResetSeed_def Let_def)
next
  assume s: "0 < sint s"
  have "sint (scast s :: u64) = sint s"
    by (simp add: sint_up_scast is_up)
  with s have "\<not> sint (scast s :: u64) \<le> 0" by simp
  then show "Get_seq n (Random_new t1 m1 s) = Get_seq n (Random_new t2 m2 s)"
    by (intro Get_seq_cong) (simp_all add: Random_new_def ResetSeed_def Let_def)
qed

theorem same_seed_same_draws_witness:
  "0 < sint (5::u64)
   \<and> value (Random_new 0 0 1) = value (Random_new 7 7 2)
   \<and> Get_seq (Suc (Suc 0)) (ResetSeed 11 22 5 (Random_new 0 0 1)) = [3048033998, 282660980]
   \<and> Get_seq (Suc (Suc 0)) (ResetSeed 33 44 5 (Random_new 7 7 2)) = [3048033998, 282660980]
   \<and> 0 < sint (5::u32)
   \<and> Get_seq (Suc (Suc 0)) (Random_new 1 2 5) = Get_seq (Suc (Suc 0)) (Random_new 3 4 5)"
proof -
  have a: "Get_seq (Suc (Suc 0)) (ResetSeed 11 22 5 (Random_new 0 0 1)) = [3048033998, 282660980]"
    by (simp add: Random_new_def ResetSeed_def Get_def STEP_SIZE_def Let_def)
  have v: "value (Random_new 0 0 1) = value (Random_new 7 7 2)"
    by (simp add: Random_new_def ResetSeed_def Let_def)
  show ?thesis
    using same_seed_same_draws
      [where seed = 5 and ?r1.0 = "Random_new 0 0 1" and ?r2.0 = "Random_new 7 7 2"
         and n = "Suc (Suc 0)" and ?t1.0 = 11 and ?m1.0 = 22 and ?t2.0 = 33 and ?m2.0 = 44 and s = 5]
      same_seed_same_draws
      [where s = 5 and n = "Suc (Suc 0)" and ?t1.0 = 1 and ?m1.0 = 2 and ?t2.0 = 3 and ?m2.0 = 4
         and seed = 5 and ?r1.0 = "Random_new 0 0 1" and ?r2.0 = "Random_new 7 7 2"]
      a v
    by simp
qed

text \<open>
  C9 as stated fails. With the default seed \<open>-1\<close> the Weyl state is the clock combined
  with the address of the object, so two objects at different addresses draw different
  values at the same time; and a generator that has drawn before keeps its squaring
  value through \<^verbatim>\<open>ResetSeed\<close>.
\<close>

theorem same_seed_counterexample:
  "Get_seq (Suc 0) (Random_new 1700000000 0x7ffd00001000 (- 1))
     \<noteq> Get_seq (Suc 0) (Random_new 1700000000 0x7ffe00001000 (- 1))
   \<and> Get_seq (Suc 0) (ResetSeed 0 0 5 (snd (Get (Random_new 0 0 7))))
     \<noteq> Get_seq (Suc 0) (Random_new 0 0 5)"
  by (simp add: Random_new_def ResetSeed_def Get_def STEP_SIZE_def Let_def)

section \<open>The population of the concrete runs: its operations and its first draws\<close>

lemma Pop_World_simps:
  "GetSize Pop_World w = length (slots w)"
  "GetNumOrgs Pop_World w = length (filter (\<lambda>x. x \<noteq> None) (slots w))"
  "IsOccupied Pop_World w i = (i < length (slots w) \<and> slots w ! i \<noteq> None)"
  "IsSynchronous Pop_World w = synchronous w"
  "IsCacheOn Pop_World w = cache_on w"
  "ClearCache Pop_World w = w"
  "GetFitFun Pop_World w = True"
  "CalcFitnessID Pop_World w i =
     (if i < length (slots w) then (case slots w ! i of None \<Rightarrow> 0 | Some g \<Rightarrow> fit_fun w g) else 0)"
  "GetGenomeAt Pop_World w i = the (slots w ! i)"
  "GetOrg Pop_World w i = the (slots w ! i)"
  "GetRandom Pop_World w = rng w"
  "SetRandom Pop_World w r = w\<lparr>rng := r\<rparr>"
  "GetRandomOrgID Pop_World w = Pop_RandomOrgID w"
  "DoBirth Pop_World w g i c = Pop_DoBirth w g i c"
  "OnLexicaseSelect Pop_World w used i = w"
  by (simp_all add: Pop_World_def)

lemma GetUInt_seed1_2:
  "GetUInt (Suc (Suc 0)) (Random_new 0 0 1) = Inr (1, snd (Get (Random_new 0 0 1)))"
  "GetUInt (Suc (Suc 0)) (snd (Get (Random_new 0 0 1))) = Inr (1, snd (Get (snd (Get (Random_new 0 0 1)))))"
proof -
  have g: "fst (Get (snd (Get (Random_new 0 0 1)))) = 3053724564"
    by (simp add: Random_new_def ResetSeed_def Get_def STEP_SIZE_def Let_def)
  have x0: "fst (GetDouble (Random_new 0 0 1)) = 3048033998 / 4294967296"
    by (simp add: GetDouble_exact Get_seed1)
  have x1: "fst (GetDouble (snd (Get (Random_new 0 0 1)))) = 3053724564 / 4294967296"
    by (simp add: GetDouble_exact g)
  have m0: "dmul (3048033998 / 4294967296) (double_of_nat (Suc (Suc 0))) = 1524016999 / 1073741824"
    by code_simp
  have m1: "dmul (3053724564 / 4294967296) (double_of_nat (Suc (Suc 0))) = 763431141 / 536870912"
    by code_simp
  have t0: "double_trunc (1524016999 / 1073741824) = 1"
    by code_simp
  have t1: "double_trunc (763431141 / 536870912) = 1"
    by code_simp
  have c0: "u32_of_double (1524016999 / 1073741824) = Inr 1"
    unfolding u32_of_double_def t0 by simp
  have c1: "u32_of_double (763431141 / 536870912) = Inr 1"
    unfolding u32_of_double_def t1 by simp
  show "GetUInt (Suc (Suc 0)) (Random_new 0 0 1) = Inr (1, snd (Get (Random_new 0 0 1)))"
    by (simp only: GetUInt_alt x0 m0 c0 sum.case)
  show "GetUInt (Suc (Suc 0)) (snd (Get (Random_new 0 0 1))) = Inr (1, snd (Get (snd (Get (Random_new 0 0 1)))))"
    by (simp only: GetUInt_alt x1 m1 c1 sum.case)
qed

lemma draw_entries_1:
  "draw_entries W 1 w = (case GetRandomOrgID W w of (e, w1) \<Rightarrow> ([e], w1))"
  by (simp add: case_prod_beta)

lemma draw_entries_2:
  "draw_entries W 2 w =
     (case GetRandomOrgID W w of (e, w1) \<Rightarrow>
        case GetRandomOrgID W w1 of (e', w2) \<Rightarrow> ([e, e'], w2))"
  by (simp add: numeral_2_eq_2 case_prod_beta)

lemma pop2_draws:
  "Pop_RandomOrgID pop2 = (1, pop2\<lparr>rng := snd (Get (Random_new 0 0 1))\<rparr>)"
  "Pop_RandomOrgID (pop2\<lparr>rng := snd (Get (Random_new 0 0 1))\<rparr>) =
     (1, pop2\<lparr>rng := snd (Get (snd (Get (Random_new 0 0 1))))\<rparr>)"
  by (simp_all add: Pop_RandomOrgID_def pop2_def GetUInt_seed1_2)

lemma draw_pop2:
  "draw_entries Pop_World 2 pop2 =
     ([1, 1], pop2\<lparr>rng := snd (Get (snd (Get (Random_new 0 0 1))))\<rparr>)"
  by (simp add: draw_entries_2 Pop_World_simps pop2_draws)

lemma Pop_RandomOrgID_small:
  assumes "length (slots w) \<le> 2 ^ 21"
  shows "Pop_RandomOrgID w =
    (unat (of_nat (unat (fst (Get (rng w))) * length (slots w) div 2 ^ 32) :: u32),
     w\<lparr>rng := snd (Get (rng w))\<rparr>)"
  by (simp add: Pop_RandomOrgID_def GetUInt_exact_small [OF assms])

lemma draw_entries_3:
  "draw_entries W 3 w =
     (case GetRandomOrgID W w of (e, w1) \<Rightarrow>
        case GetRandomOrgID W w1 of (e', w2) \<Rightarrow>
          case GetRandomOrgID W w2 of (e'', w3) \<Rightarrow> ([e, e', e''], w3))"
  by (simp add: numeral_3_eq_3 case_prod_beta)

lemma draw_pop2b:
  "draw_entries Pop_World 2 pop2b =
     ([1, 0], pop2b\<lparr>rng := snd (Get (snd (Get (Random_new 0 0 3))))\<rparr>)"
proof -
  have a: "Pop_RandomOrgID pop2b = (1, pop2b\<lparr>rng := snd (Get (Random_new 0 0 3))\<rparr>)"
    by (subst Pop_RandomOrgID_small) (simp_all add: pop2b_def Get_seed3)
  have b: "Pop_RandomOrgID (pop2b\<lparr>rng := snd (Get (Random_new 0 0 3))\<rparr>) =
      (0, pop2b\<lparr>rng := snd (Get (snd (Get (Random_new 0 0 3))))\<rparr>)"
    by (subst Pop_RandomOrgID_small) (simp_all add: pop2b_def Get_seed3)
  show ?thesis
    by (simp add: draw_entries_2 Pop_World_simps a b)
qed

lemma draw_pop_tie:
  "draw_entries Pop_World 3 pop_tie =
     ([2, 1, 1], pop_tie\<lparr>rng := snd (Get (snd (Get (snd (Get (Random_new 0 0 2))))))\<rparr>)"
proof -
  have a: "Pop_RandomOrgID pop_tie = (2, pop_tie\<lparr>rng := snd (Get (Random_new 0 0 2))\<rparr>)"
    by (subst Pop_RandomOrgID_small) (simp_all add: pop_tie_def Get_seed2)
  have b: "Pop_RandomOrgID (pop_tie\<lparr>rng := snd (Get (Random_new 0 0 2))\<rparr>) =
      (1, pop_tie\<lparr>rng := snd (Get (snd (Get (Random_new 0 0 2))))\<rparr>)"
    by (subst Pop_RandomOrgID_small) (simp_all add: pop_tie_def Get_seed2)
  have c: "Pop_RandomOrgID (pop_tie\<lparr>rng := snd (Get (snd (Get (Random_new 0 0 2))))\<rparr>) =
      (1, pop_tie\<lparr>rng := snd (Get (snd (Get (snd (Get (Random_new 0 0 2))))))\<rparr>)"
    by (subst Pop_RandomOrgID_small) (simp_all add: pop_tie_def Get_seed2)
  show ?thesis
    by (simp add: draw_entries_3 Pop_World_simps a b c)
qed

section \<open>MapElites: the claim\<close>

text \<open>
  C10. \<^verbatim>\<open>MapElitesSeed\<close> and \<^verbatim>\<open>MapElitesGrow\<close> check their two preconditions and do
  nothing else: on a non-empty world with a valid configuration they end normally with
  no birth and the world as it was; in every case the world is unchanged and no birth
  is requested.
\<close>

theorem MapElites_no_effect:
  "(0 < GetSize W w \<and> Config_OK config \<longrightarrow>
      MapElitesSeed W w config org = (None, [], w)
      \<and> MapElitesGrow W w config repro_count = (None, [], w))
   \<and> snd (MapElitesSeed W w config org) = ([], w)
   \<and> snd (MapElitesGrow W w config repro_count) = ([], w)"
  by (simp add: MapElitesSeed_def MapElitesGrow_def)

theorem MapElites_no_effect_witness:
  "0 < GetSize Pop_World pop2
   \<and> Config_OK [\<lparr>pheno_fun = Some (\<lambda>g. g mod 4), id_count = 4\<rparr>]
   \<and> MapElitesSeed Pop_World pop2 [\<lparr>pheno_fun = Some (\<lambda>g. g mod 4), id_count = 4\<rparr>] 7
       = (None, [], pop2)
   \<and> MapElitesGrow Pop_World pop2 [\<lparr>pheno_fun = Some (\<lambda>g. g mod 4), id_count = 4\<rparr>] 3
       = (None, [], pop2)"
  using MapElites_no_effect
    [of Pop_World pop2 "[\<lparr>pheno_fun = Some (\<lambda>g. g mod 4), id_count = 4\<rparr>]" 7 3]
  by (simp add: Pop_World_simps pop2_def Phenotype_OK_def)

section \<open>TournamentSelect: the claim\<close>

lemma draw_entries_length: "length (fst (draw_entries W n w)) = n"
  by (induction n arbitrary: w) (simp_all add: case_prod_beta)

text \<open>
  The scan keeps the first of the contestants seen so far that no contestant seen so
  far beats; \<open>seen\<close> are the contestants before \<open>es\<close>.
\<close>

lemma tournament_scan_first_max:
  assumes "fst best = fit (snd best)" and "first_max fit seen (snd best)"
  shows "first_max fit (seen @ es) (snd (tournament_scan fit es best))"
  using assms
proof (induction es arbitrary: seen best)
  case Nil
  then show ?case by simp
next
  case (Cons e es)
  from Cons.prems(2) obtain i where i: "i < length seen" "seen ! i = snd best"
    and le: "\<forall>j<length seen. fit (seen ! j) \<le> fit (snd best)"
    and lt: "\<forall>j<i. fit (seen ! j) < fit (snd best)"
    by (auto simp: first_max_def)
  show ?case
  proof (cases "fit e > fst best")
    case True
    have "first_max fit (seen @ [e]) e"
      unfolding first_max_def
    proof (intro exI [of _ "length seen"] conjI allI impI)
      show "length seen < length (seen @ [e])" by simp
      show "(seen @ [e]) ! length seen = e" by simp
      show "fit ((seen @ [e]) ! j) \<le> fit e" if "j < length (seen @ [e])" for j
        using that le True Cons.prems(1) by (cases "j < length seen") (auto simp: nth_append less_Suc_eq)
      show "fit ((seen @ [e]) ! j) < fit e" if "j < length seen" for j
        using that le True Cons.prems(1) by (auto simp: nth_append)
    qed
    then have "first_max fit ((seen @ [e]) @ es) (snd (tournament_scan fit es (fit e, e)))"
      by (intro Cons.IH) simp_all
    with True show ?thesis by simp
  next
    case False
    have "first_max fit (seen @ [e]) (snd best)"
      unfolding first_max_def
    proof (intro exI [of _ i] conjI allI impI)
      show "i < length (seen @ [e])" using i by simp
      show "(seen @ [e]) ! i = snd best" using i by (simp add: nth_append)
      show "fit ((seen @ [e]) ! j) \<le> fit (snd best)" if "j < length (seen @ [e])" for j
        using that le False Cons.prems(1) by (cases "j < length seen") (auto simp: nth_append less_Suc_eq)
      show "fit ((seen @ [e]) ! j) < fit (snd best)" if "j < i" for j
        using that lt i by (auto simp: nth_append)
    qed
    with Cons.prems(1) have "first_max fit ((seen @ [e]) @ es) (snd (tournament_scan fit es best))"
      by (intro Cons.IH)
    with False show ?thesis by simp
  qed
qed

lemma tournament_best_first_max:
  assumes "entries \<noteq> []"
  shows "\<exists>b. tournament_best fit entries = Inr b \<and> first_max fit entries b"
proof -
  from assms obtain e es where c: "entries = e # es" by (cases entries) auto
  have "first_max fit [e] e"
    by (simp add: first_max_def)
  then have "first_max fit ([e] @ es) (snd (tournament_scan fit es (fit e, e)))"
    by (intro tournament_scan_first_max) simp_all
  then show ?thesis
    by (simp add: tournament_best_def c)
qed

lemma first_max_strict:
  assumes "first_max fit entries b" and "m \<in> set entries"
    and "\<forall>e\<in>set entries. e \<noteq> m \<longrightarrow> fit e < fit m"
  shows "b = m"
proof (rule ccontr)
  assume n: "b \<noteq> m"
  from assms(1) have b: "b \<in> set entries" and le: "\<forall>j<length entries. fit (entries ! j) \<le> fit b"
    by (auto simp: first_max_def)
  from assms(2) obtain j where "j < length entries" "entries ! j = m"
    by (auto simp: in_set_conv_nth)
  with le have "fit m \<le> fit b" by auto
  moreover from assms(3) b n have "fit b < fit m" by simp
  ultimately show False by simp
qed

lemma first_max_head:
  assumes "first_max fit (e # es) b" and "\<forall>x\<in>set es. fit x \<le> fit e"
  shows "b = e"
proof -
  from assms(1) obtain i where i: "i < length (e # es)" "(e # es) ! i = b"
    and le: "\<forall>j<length (e # es). fit ((e # es) ! j) \<le> fit b"
    and lt: "\<forall>j<i. fit ((e # es) ! j) < fit b"
    by (auto simp: first_max_def)
  show ?thesis
  proof (cases i)
    case 0
    with i show ?thesis by simp
  next
    case (Suc k)
    with lt have "fit e < fit b" by auto
    moreover from i Suc have "b \<in> set es" by auto
    with assms(2) have "fit b \<le> fit e" by simp
    ultimately show ?thesis by simp
  qed
qed

text \<open>
  C2, as amended. A tournament births one offspring of the first-seen maximum of its
  drawn contestants: the first of them that none of them beats. So an organism that is
  strictly fitter than every other drawn contestant wins every tournament it is drawn
  into, whatever the tournament size; an organism that is not drawn cannot win.
\<close>

theorem Tournament_max_wins:
  assumes "draw_entries W t_size w = (entries, w1)" and "0 < t_size"
  shows "\<exists>winner.
           first_max (CalcFitnessID W w1) entries winner
           \<and> Tournament_loop W t_size (Suc T) births w =
               Tournament_loop W t_size T (births @ [(winner, 1)])
                 (snd (DoBirth W w1 (GetGenomeAt W w1 winner) winner 1))
           \<and> TournamentSelect W w t_size 1 =
               (None, [(winner, 1)], snd (DoBirth W w1 (GetGenomeAt W w1 winner) winner 1))
           \<and> (\<forall>m. m \<in> set entries
                   \<and> (\<forall>e\<in>set entries. e \<noteq> m \<longrightarrow> CalcFitnessID W w1 e < CalcFitnessID W w1 m)
                 \<longrightarrow> winner = m)"
proof -
  have "length entries = t_size"
    using draw_entries_length [of W t_size w] assms(1) by simp
  with assms(2) have "entries \<noteq> []" by auto
  from tournament_best_first_max [OF this, of "CalcFitnessID W w1"] obtain b where
    b: "tournament_best (CalcFitnessID W w1) entries = Inr b"
    and f: "first_max (CalcFitnessID W w1) entries b" by blast
  have step: "Tournament_loop W t_size (Suc T') bs w =
           Tournament_loop W t_size T' (bs @ [(b, 1)])
             (snd (DoBirth W w1 (GetGenomeAt W w1 b) b 1))" for T' bs
    by (simp add: assms(1) b)
  have "TournamentSelect W w t_size 1 = Tournament_loop W t_size (Suc 0) [] w"
    using assms(2) by (simp add: TournamentSelect_def)
  with step have sel: "TournamentSelect W w t_size 1 =
      (None, [(b, 1)], snd (DoBirth W w1 (GetGenomeAt W w1 b) b 1))"
    by simp
  have "b = m" if "m \<in> set entries"
      "\<forall>e\<in>set entries. e \<noteq> m \<longrightarrow> CalcFitnessID W w1 e < CalcFitnessID W w1 m" for m
    using f that by (rule first_max_strict)
  with f step sel show ?thesis
    by (intro exI [of _ b]) auto
qed


theorem Tournament_max_wins_witness:
  "draw_entries Pop_World 2 pop2b =
     ([1, 0], pop2b\<lparr>rng := snd (Get (snd (Get (Random_new 0 0 3))))\<rparr>)
   \<and> CalcFitnessID Pop_World pop2b 1 < CalcFitnessID Pop_World pop2b 0
   \<and> fst (snd (TournamentSelect Pop_World pop2b 2 1)) = [(0, 1)]
   \<and> draw_entries Pop_World 3 pop_tie =
     ([2, 1, 1], pop_tie\<lparr>rng := snd (Get (snd (Get (snd (Get (Random_new 0 0 2))))))\<rparr>)
   \<and> CalcFitnessID Pop_World pop_tie 2 = CalcFitnessID Pop_World pop_tie 1
   \<and> CalcFitnessID Pop_World pop_tie 0 < CalcFitnessID Pop_World pop_tie 2
   \<and> fst (snd (TournamentSelect Pop_World pop_tie 3 1)) = [(2, 1)]"
proof -
  let ?w2 = "pop2b\<lparr>rng := snd (Get (snd (Get (Random_new 0 0 3))))\<rparr>"
  let ?w3 = "pop_tie\<lparr>rng := snd (Get (snd (Get (snd (Get (Random_new 0 0 2))))))\<rparr>"
  have f2: "CalcFitnessID Pop_World ?w2 0 = 5" "CalcFitnessID Pop_World ?w2 (Suc 0) = 3"
    "CalcFitnessID Pop_World pop2b 0 = 5" "CalcFitnessID Pop_World pop2b (Suc 0) = 3"
    by (simp_all add: Pop_World_simps pop2b_def)
  have f3: "CalcFitnessID Pop_World ?w3 0 = 3" "CalcFitnessID Pop_World ?w3 (Suc 0) = 5"
    "CalcFitnessID Pop_World ?w3 2 = 5"
    "CalcFitnessID Pop_World pop_tie 0 = 3" "CalcFitnessID Pop_World pop_tie (Suc 0) = 5"
    "CalcFitnessID Pop_World pop_tie 2 = 5"
    by (simp_all add: Pop_World_simps pop_tie_def)
  from Tournament_max_wins [OF draw_pop2b, of 0 "[]"] obtain winner where
    s: "TournamentSelect Pop_World pop2b 2 1 =
          (None, [(winner, 1)], snd (DoBirth Pop_World ?w2 (GetGenomeAt Pop_World ?w2 winner) winner 1))"
    and m: "\<forall>m. m \<in> set [1, 0 :: nat]
           \<and> (\<forall>e\<in>set [1, 0 :: nat]. e \<noteq> m \<longrightarrow> CalcFitnessID Pop_World ?w2 e < CalcFitnessID Pop_World ?w2 m)
           \<longrightarrow> winner = m"
    by auto
  from m have "winner = 0"
    by (simp add: f2)
  with s have a: "fst (snd (TournamentSelect Pop_World pop2b 2 1)) = [(0, 1)]"
    by simp
  from Tournament_max_wins [OF draw_pop_tie, of 0 "[]"] obtain winner' where
    s': "TournamentSelect Pop_World pop_tie 3 1 =
          (None, [(winner', 1)], snd (DoBirth Pop_World ?w3 (GetGenomeAt Pop_World ?w3 winner') winner' 1))"
    and f: "first_max (CalcFitnessID Pop_World ?w3) [2, 1, 1] winner'"
    by auto
  from f have "winner' = 2"
    by (rule first_max_head) (simp add: f3)
  with s' have b: "fst (snd (TournamentSelect Pop_World pop_tie 3 1)) = [(2, 1)]"
    by simp
  show ?thesis
    using a b by (simp add: draw_pop2b draw_pop_tie f2 f3)
qed

text \<open>
  C2 as stated fails: the contestants are drawn with replacement, so a tournament of
  the size of the population need not contain the fittest organism. In the population
  of two with the generator of seed 1 both draws are slot 1, and slot 1 reproduces
  although slot 0 is fitter.
\<close>

theorem Tournament_counterexample:
  "GetSize Pop_World pop2 = 2
   \<and> CalcFitnessID Pop_World pop2 0 = 5
   \<and> CalcFitnessID Pop_World pop2 1 = 3
   \<and> fst (TournamentSelect Pop_World pop2 2 1) = None
   \<and> fst (snd (TournamentSelect Pop_World pop2 2 1)) = [(1, 1)]"
  by (simp add: TournamentSelect_def draw_pop2 tournament_best_def Pop_World_simps)
   (simp add: pop2_def)

section \<open>LexicaseSelect: the filter\<close>

text \<open>
  After one fitness function the survivors are, as a set, the genotypes of the previous
  list whose value is the largest one. As a list they are these genotypes in order,
  preceded by one more copy of the first genotype of the previous list when that one
  is among them.
\<close>

lemma lexicase_scan_closed:
  assumes "lexicase_scan fit gs (mx, nx) = (M, nx')"
  shows "(\<forall>g\<in>set gs. fit g \<le> M) \<and> mx \<le> M \<and> (M = mx \<or> M \<in> fit ` set gs)
         \<and> nx' = (if M = mx then nx else []) @ filter (\<lambda>g. fit g = M) gs"
  using assms
proof (induction gs arbitrary: mx nx)
  case Nil
  then show ?case by simp
next
  case (Cons g gs)
  show ?case
  proof (cases "fit g > mx")
    case True
    with Cons.prems have "lexicase_scan fit gs (fit g, [g]) = (M, nx')" by simp
    from Cons.IH [OF this] True show ?thesis by auto
  next
    case False
    show ?thesis
    proof (cases "fit g = mx")
      case True
      with Cons.prems have "lexicase_scan fit gs (mx, nx @ [g]) = (M, nx')" by simp
      from Cons.IH [OF this] True show ?thesis by auto
    next
      case ne: False
      with False Cons.prems have "lexicase_scan fit gs (mx, nx) = (M, nx')" by simp
      from Cons.IH [OF this] False ne show ?thesis by auto
    qed
  qed
qed

lemma lexicase_step_closed:
  assumes "cur_gens \<noteq> []"
  shows "\<exists>M. (\<forall>g\<in>set cur_gens. fit g \<le> M) \<and> M \<in> fit ` set cur_gens
           \<and> lexicase_step fit cur_gens =
               Inr ((if fit (hd cur_gens) = M then [hd cur_gens] else [])
                    @ filter (\<lambda>g. fit g = M) cur_gens)"
proof -
  from assms obtain g0 gs where c: "cur_gens = g0 # gs" by (cases cur_gens) auto
  obtain M nx' where s: "lexicase_scan fit cur_gens (fit g0, [g0]) = (M, nx')"
    by (cases "lexicase_scan fit cur_gens (fit g0, [g0])")
  from lexicase_scan_closed [OF s]
  have "(\<forall>g\<in>set cur_gens. fit g \<le> M)" "M \<in> fit ` set cur_gens"
    "nx' = (if M = fit g0 then [g0] else []) @ filter (\<lambda>g. fit g = M) cur_gens"
    using c by auto
  moreover have "lexicase_step fit cur_gens = Inr nx'"
    using s c by (simp add: lexicase_step_def)
  ultimately show ?thesis using c by auto
qed

lemma lexicase_step_survivors:
  assumes "cur_gens \<noteq> []"
  shows "\<exists>next_gens. lexicase_step fit cur_gens = Inr next_gens
           \<and> set next_gens = {g \<in> set cur_gens. \<forall>h\<in>set cur_gens. fit h \<le> fit g}"
proof -
  from lexicase_step_closed [OF assms, of fit] obtain M where
    M: "\<forall>g\<in>set cur_gens. fit g \<le> M" "M \<in> fit ` set cur_gens"
    and s: "lexicase_step fit cur_gens =
               Inr ((if fit (hd cur_gens) = M then [hd cur_gens] else [])
                    @ filter (\<lambda>g. fit g = M) cur_gens)"
    by blast
  have "hd cur_gens \<in> set cur_gens" using assms by simp
  then have "set ((if fit (hd cur_gens) = M then [hd cur_gens] else [])
                    @ filter (\<lambda>g. fit g = M) cur_gens)
       = {g \<in> set cur_gens. fit g = M}"
    by auto
  also have "\<dots> = {g \<in> set cur_gens. \<forall>h\<in>set cur_gens. fit h \<le> fit g}"
    using M by (auto intro: antisym)
  finally show ?thesis using s by simp
qed

text \<open>
  C1 on a concrete input. Two genotypes, two functions with the values \<open>[5, 3]\<close> and
  \<open>[1, 2]\<close>, applied in the order \<open>[0, 1]\<close>. After function 0 only genotype 0
  survives, but the list of survivors is \<open>[0, 0]\<close>, of length 2: the loop does not
  stop, applies function 1 too and ends with \<open>depth = 1\<close>. When both genotypes tie,
  the list holds the first genotype twice.
\<close>

theorem lexicase_no_early_stop:
  "lexicase_step (\<lambda>gen_id. [5, 3] ! gen_id) [0, 1] = Inr [0, 0]
   \<and> lexicase_filter [[5, 3], [1, 2]] [0, 1] [0, 1] (- 1) = Inr ([0, 0, 0], 1)
   \<and> lexicase_step (\<lambda>gen_id. [5, 5] ! gen_id) [0, 1] = Inr [0, 0, 1]"
  by (simp add: lexicase_step_def vec_at_def)

section \<open>RouletteSelect: the claim\<close>












lemma Roulette_trace_length: "length (Roulette_trace W n fitness_index w) \<le> n"
proof (induction n arbitrary: fitness_index w)
  case 0
  show ?case by simp
next
  case (Suc n)
  show ?case
  proof (cases "Roulette_step W fitness_index w")
    case (Inl a)
    then show ?thesis by (cases a) simp
  next
    case (Inr b)
    then obtain p o' idx' w2 where "Roulette_step W fitness_index w = Inr (p, o', idx', w2)"
      by (cases b) auto
    then show ?thesis by (simp add: Suc.IH)
  qed
qed













section \<open>EcoSelect: the readjusted fitness\<close>

text \<open>One step of the inner loop touches position ex_id of the three vectors only.\<close>

lemma Eco_extra_step_at:
  assumes "Eco_extra_step fs org org_id (ef, mx, mc) ex = (ef', mx', mc')"
    and "ex < length ef" "ex < length mx" "ex < length mc"
  shows "length ef' = length ef \<and> length mx' = length mx \<and> length mc' = length mc
    \<and> ef' ! ex = (ef ! ex)[org_id := (fs ! ex) org]
    \<and> mx' ! ex = (if (fs ! ex) org > mx ! ex then (fs ! ex) org else mx ! ex)
    \<and> mc' ! ex = (if (fs ! ex) org > mx ! ex then 1
                   else if (fs ! ex) org = mx ! ex then mc ! ex + 1 else mc ! ex)
    \<and> (\<forall>j. j \<noteq> ex \<longrightarrow> ef' ! j = ef ! j \<and> mx' ! j = mx ! j \<and> mc' ! j = mc ! j)"
  using assms by (auto simp: Eco_extra_step_def Let_def split: if_splits)

lemma Eco_extra_fold:
  assumes "foldl (Eco_extra_step fs org org_id) (ef, mx, mc) exs = (ef', mx', mc')"
    and "distinct exs" "\<forall>ex\<in>set exs. ex < n" "length ef = n" "length mx = n" "length mc = n"
  shows "length ef' = n \<and> length mx' = n \<and> length mc' = n
    \<and> (\<forall>ex\<in>set exs.
          ef' ! ex = (ef ! ex)[org_id := (fs ! ex) org]
          \<and> mx' ! ex = (if (fs ! ex) org > mx ! ex then (fs ! ex) org else mx ! ex)
          \<and> mc' ! ex = (if (fs ! ex) org > mx ! ex then 1
                         else if (fs ! ex) org = mx ! ex then mc ! ex + 1 else mc ! ex))
    \<and> (\<forall>j. j \<notin> set exs \<longrightarrow> ef' ! j = ef ! j \<and> mx' ! j = mx ! j \<and> mc' ! j = mc ! j)"
  using assms
proof (induction exs arbitrary: ef mx mc)
  case Nil
  then show ?case by simp
next
  case (Cons x exs)
  obtain ef1 mx1 mc1 where s1: "Eco_extra_step fs org org_id (ef, mx, mc) x = (ef1, mx1, mc1)"
    by (cases "Eco_extra_step fs org org_id (ef, mx, mc) x") auto
  have x: "x < length ef" "x < length mx" "x < length mc"
    using Cons.prems by simp_all
  note A = Eco_extra_step_at [OF s1 x]
  have f: "foldl (Eco_extra_step fs org org_id) (ef1, mx1, mc1) exs = (ef', mx', mc')"
    using Cons.prems(1) s1 by simp
  have B: "length ef' = n \<and> length mx' = n \<and> length mc' = n
    \<and> (\<forall>ex\<in>set exs.
          ef' ! ex = (ef1 ! ex)[org_id := (fs ! ex) org]
          \<and> mx' ! ex = (if (fs ! ex) org > mx1 ! ex then (fs ! ex) org else mx1 ! ex)
          \<and> mc' ! ex = (if (fs ! ex) org > mx1 ! ex then 1
                         else if (fs ! ex) org = mx1 ! ex then mc1 ! ex + 1 else mc1 ! ex))
    \<and> (\<forall>j. j \<notin> set exs \<longrightarrow> ef' ! j = ef1 ! j \<and> mx' ! j = mx1 ! j \<and> mc' ! j = mc1 ! j)"
    using f Cons.prems A by (intro Cons.IH) simp_all
  have xn: "x \<notin> set exs" using Cons.prems(2) by simp
  show ?case
  proof (intro conjI ballI allI impI)
    show "length ef' = n" "length mx' = n" "length mc' = n" using B by simp_all
  next
    fix ex assume "ex \<in> set (x # exs)"
    then consider "ex = x" | "ex \<in> set exs" "ex \<noteq> x" using xn by auto
    then have "ef' ! ex = (ef ! ex)[org_id := (fs ! ex) org]
          \<and> mx' ! ex = (if (fs ! ex) org > mx ! ex then (fs ! ex) org else mx ! ex)
          \<and> mc' ! ex = (if (fs ! ex) org > mx ! ex then 1
                         else if (fs ! ex) org = mx ! ex then mc ! ex + 1 else mc ! ex)"
    proof cases
      case 1
      with xn B A show ?thesis by simp
    next
      case 2
      with B A show ?thesis by simp
    qed
    then show "ef' ! ex = (ef ! ex)[org_id := (fs ! ex) org]"
      "mx' ! ex = (if (fs ! ex) org > mx ! ex then (fs ! ex) org else mx ! ex)"
      "mc' ! ex = (if (fs ! ex) org > mx ! ex then 1
                         else if (fs ! ex) org = mx ! ex then mc ! ex + 1 else mc ! ex)"
      by simp_all
  next
    fix j assume "j \<notin> set (x # exs)"
    then have "j \<noteq> x" "j \<notin> set exs" by simp_all
    with A B show "ef' ! j = ef ! j" "mx' ! j = mx ! j" "mc' ! j = mc ! j" by simp_all
  qed
qed


lemma Eco_tracked_0: "Eco_tracked v 0 0 0"
  by (simp add: Eco_tracked_def)

lemma Eco_tracked_step:
  assumes "Eco_tracked v k m c"
  shows "Eco_tracked v (Suc k) (if v k > m then v k else m)
           (if v k > m then 1 else if v k = m then c + 1 else c)"
proof -
  from assms have le: "\<forall>i<k. v i \<le> m" and m0: "0 \<le> m"
    and ex: "m = 0 \<or> (\<exists>i<k. v i = m)"
    and c: "c = length (filter (\<lambda>i. v i = m) [0..<k])"
    by (simp_all add: Eco_tracked_def)
  show ?thesis
  proof (cases "v k > m")
    case True
    have "filter (\<lambda>i. v i = v k) [0..<k] = []"
      using le True by (auto simp: filter_empty_conv)
    moreover have "\<forall>i<Suc k. v i \<le> v k"
      using le True by (auto simp: less_Suc_eq)
    ultimately show ?thesis
      using True m0 by (auto simp: Eco_tracked_def)
  next
    case False
    then have "\<forall>i<Suc k. v i \<le> m"
      using le by (auto simp: less_Suc_eq)
    moreover have "m = 0 \<or> (\<exists>i<Suc k. v i = m)"
      using ex by (auto simp: less_Suc_eq)
    ultimately show ?thesis
      using False m0 c by (auto simp: Eco_tracked_def)
  qed
qed

lemma Eco_collect_prefix:
  assumes "k \<le> GetSize W w"
  shows "\<exists>bf ef mx mc.
     foldl (Eco_org_step W w fs)
       (replicate (GetSize W w) (Finite 0), replicate (length fs) (replicate (GetSize W w) 0),
        replicate (length fs) 0, replicate (length fs) 0) [0..<k] = (bf, ef, mx, mc)
     \<and> length bf = GetSize W w \<and> length ef = length fs
     \<and> length mx = length fs \<and> length mc = length fs
     \<and> (\<forall>i<k. bf ! i = Finite (CalcFitnessID W w i))
     \<and> (\<forall>ex<length fs. length (ef ! ex) = GetSize W w
           \<and> (\<forall>i<k. ef ! ex ! i = (fs ! ex) (GetOrg W w i))
           \<and> Eco_tracked (\<lambda>i. (fs ! ex) (GetOrg W w i)) k (mx ! ex) (mc ! ex))"
  using assms
proof (induction k)
  case 0
  show ?case by (simp add: Eco_tracked_0)
next
  case (Suc k)
  let ?n = "length fs"
  let ?v = "\<lambda>ex i. (fs ! ex) (GetOrg W w i)"
  from Suc obtain bf ef mx mc where
    f: "foldl (Eco_org_step W w fs)
       (replicate (GetSize W w) (Finite 0), replicate ?n (replicate (GetSize W w) 0),
        replicate ?n 0, replicate ?n 0) [0..<k] = (bf, ef, mx, mc)"
    and len: "length bf = GetSize W w" "length ef = ?n" "length mx = ?n" "length mc = ?n"
    and bf: "\<forall>i<k. bf ! i = Finite (CalcFitnessID W w i)"
    and ex: "\<forall>ex<?n. length (ef ! ex) = GetSize W w
           \<and> (\<forall>i<k. ef ! ex ! i = ?v ex i)
           \<and> Eco_tracked (?v ex) k (mx ! ex) (mc ! ex)"
    by (metis Suc_leD)
  obtain ef' mx' mc' where
    g: "foldl (Eco_extra_step fs (GetOrg W w k) k) (ef, mx, mc) [0..<?n] = (ef', mx', mc')"
    by (cases "foldl (Eco_extra_step fs (GetOrg W w k) k) (ef, mx, mc) [0..<?n]") auto
  have G: "length ef' = ?n \<and> length mx' = ?n \<and> length mc' = ?n
    \<and> (\<forall>ex\<in>set [0..<?n].
          ef' ! ex = (ef ! ex)[k := ?v ex k]
          \<and> mx' ! ex = (if ?v ex k > mx ! ex then ?v ex k else mx ! ex)
          \<and> mc' ! ex = (if ?v ex k > mx ! ex then 1
                         else if ?v ex k = mx ! ex then mc ! ex + 1 else mc ! ex))
    \<and> (\<forall>j. j \<notin> set [0..<?n] \<longrightarrow> ef' ! j = ef ! j \<and> mx' ! j = mx ! j \<and> mc' ! j = mc ! j)"
    using g by (rule Eco_extra_fold) (simp_all add: len)
  have step: "foldl (Eco_org_step W w fs)
       (replicate (GetSize W w) (Finite 0), replicate ?n (replicate (GetSize W w) 0),
        replicate ?n 0, replicate ?n 0) [0..<Suc k]
      = (bf[k := Finite (CalcFitnessID W w k)], ef', mx', mc')"
    by (simp add: f Eco_org_step_def g)
  have k: "k < GetSize W w" using Suc.prems by simp
  have "\<forall>i<Suc k. bf[k := Finite (CalcFitnessID W w k)] ! i = Finite (CalcFitnessID W w i)"
    using bf k len by (auto simp: less_Suc_eq nth_list_update)
  moreover have "\<forall>ex<?n. length (ef' ! ex) = GetSize W w
           \<and> (\<forall>i<Suc k. ef' ! ex ! i = ?v ex i)
           \<and> Eco_tracked (?v ex) (Suc k) (mx' ! ex) (mc' ! ex)"
  proof (intro allI impI)
    fix e assume e: "e < ?n"
    with ex have E: "length (ef ! e) = GetSize W w" "\<forall>i<k. ef ! e ! i = ?v e i"
      "Eco_tracked (?v e) k (mx ! e) (mc ! e)" by simp_all
    from G e have U: "ef' ! e = (ef ! e)[k := ?v e k]"
      "mx' ! e = (if ?v e k > mx ! e then ?v e k else mx ! e)"
      "mc' ! e = (if ?v e k > mx ! e then 1
                         else if ?v e k = mx ! e then mc ! e + 1 else mc ! e)"
      by simp_all
    have "\<forall>i<Suc k. ef' ! e ! i = ?v e i"
      using E k by (auto simp: U less_Suc_eq nth_list_update)
    moreover have "Eco_tracked (?v e) (Suc k) (mx' ! e) (mc' ! e)"
      unfolding U by (rule Eco_tracked_step [OF E(3)])
    ultimately show "length (ef' ! e) = GetSize W w
           \<and> (\<forall>i<Suc k. ef' ! e ! i = ?v e i)
           \<and> Eco_tracked (?v e) (Suc k) (mx' ! e) (mc' ! e)"
      using E by (simp add: U)
  qed
  ultimately show ?case
    using step len G by auto
qed


lemma Eco_collect_final:
  "\<exists>bf ef mx mc.
     Eco_collect W w fs = (bf, ef, mx, mc)
     \<and> length bf = GetSize W w
     \<and> (\<forall>i<GetSize W w. bf ! i = Finite (CalcFitnessID W w i))
     \<and> (\<forall>ex<length fs.
           (\<forall>i<GetSize W w. ef ! ex ! i = (fs ! ex) (GetOrg W w i))
           \<and> Eco_tracked (\<lambda>i. (fs ! ex) (GetOrg W w i)) (GetSize W w) (mx ! ex) (mc ! ex))"
  using Eco_collect_prefix [of "GetSize W w" W w fs]
  unfolding Eco_collect_def by (simp only: order_refl) blast

lemma Eco_tracked_final:
  assumes "Eco_tracked v n m c"
  defines "M \<equiv> Max (set (map v [0..<n]))"
  defines "K \<equiv> length (filter (\<lambda>x. x = M) (map v [0..<n]))"
  shows "(c = 0 \<and> (\<forall>i<n. \<not> (0 \<le> M \<and> v i = M)))
         \<or> (c \<noteq> 0 \<and> c = K \<and> m = M \<and> 0 \<le> M)"
proof -
  from assms(1) have le: "\<forall>i<n. v i \<le> m" and m0: "0 \<le> m"
    and ex: "m = 0 \<or> (\<exists>i<n. v i = m)"
    and c: "c = length (filter (\<lambda>i. v i = m) [0..<n])"
    by (simp_all add: Eco_tracked_def)
  show ?thesis
  proof (cases "\<exists>i<n. v i = m")
    case True
    then obtain i where i: "i < n" "v i = m" by blast
    have "Max (set (map v [0..<n])) = m"
    proof (rule Max_eqI)
      show "finite (set (map v [0..<n]))" by simp
      show "y \<le> m" if "y \<in> set (map v [0..<n])" for y
        using that le by auto
      show "m \<in> set (map v [0..<n])"
        using i by auto
    qed
    then have M: "M = m" by (simp add: M_def)
    have "K = length (filter (\<lambda>i. v i = m) [0..<n])"
      by (simp add: K_def M filter_map comp_def)
    then have K: "K = c" by (simp add: c)
    have "i \<in> set (filter (\<lambda>i. v i = m) [0..<n])"
      using i by simp
    then have "filter (\<lambda>i. v i = m) [0..<n] \<noteq> []"
      by (metis empty_iff empty_set)
    then have "c \<noteq> 0" by (simp add: c)
    with M K m0 show ?thesis by simp
  next
    case False
    with ex have m: "m = 0" by blast
    from False have "filter (\<lambda>i. v i = m) [0..<n] = []"
      by (auto simp: filter_empty_conv)
    then have "c = 0" by (simp add: c)
    moreover have "\<not> (0 \<le> M \<and> v i = M)" if "i < n" for i
    proof
      assume a: "0 \<le> M \<and> v i = M"
      from le that m have "v i \<le> 0" by simp
      with a have "v i = 0" by simp
      with False that m show False by blast
    qed
    ultimately show ?thesis by blast
  qed
qed

lemma Eco_org_bonus_apply:
  "Eco_org_bonus row m b xs k = (if row ! k = m then xs[k := dadd (xs ! k) b] else xs)"
  by (simp add: Eco_org_bonus_def)

lemma Eco_org_bonus_fold:
  assumes "k \<le> length base"
  shows "length (foldl (Eco_org_bonus row m b) base [0..<k]) = length base
    \<and> (\<forall>i<length base. foldl (Eco_org_bonus row m b) base [0..<k] ! i =
          (if i < k \<and> row ! i = m then dadd (base ! i) b else base ! i))"
  using assms
proof (induction k)
  case 0
  show ?case by simp
next
  case (Suc k)
  define F where "F = foldl (Eco_org_bonus row m b) base [0..<k]"
  from Suc have IH: "length F = length base"
    "\<forall>i<length base. F ! i = (if i < k \<and> row ! i = m then dadd (base ! i) b else base ! i)"
    by (simp_all add: F_def)
  have k: "k < length base" using Suc.prems by simp
  have s: "foldl (Eco_org_bonus row m b) base [0..<Suc k] = Eco_org_bonus row m b F k"
    by (simp add: F_def)
  have a: "Eco_org_bonus row m b F k = (if row ! k = m then F[k := dadd (F ! k) b] else F)"
    by (rule Eco_org_bonus_apply)
  show ?case
    unfolding s a using IH k by (auto simp: nth_list_update less_Suc_eq)
qed


lemma Eco_readjust_closed:
  assumes extra: "\<forall>ex<length fs.
           (\<forall>i<GetSize W w. ef ! ex ! i = (fs ! ex) (GetOrg W w i))
           \<and> Eco_tracked (\<lambda>i. (fs ! ex) (GetOrg W w i)) (GetSize W w) (mx ! ex) (mc ! ex)"
    and exs: "\<forall>ex\<in>set exs. ex < length fs \<and> ex < length pool"
    and base: "length base = GetSize W w"
  shows "\<exists>b. Eco_readjust pool (ef, mx, mc) exs base = Inr b \<and> length b = GetSize W w
    \<and> (\<forall>i<GetSize W w. b ! i =
          foldl (\<lambda>a ex. let f = fs ! ex; M = Eco_population_max W w f
                        in if 0 \<le> M \<and> f (GetOrg W w i) = M
                           then dadd a (ddiv (pool ! ex) (double_of_nat (Eco_ties W w f)))
                           else a)
            (base ! i) exs)"
  using exs base
proof (induction exs arbitrary: base)
  case Nil
  then show ?case by simp
next
  case (Cons ex exs)
  let ?v = "\<lambda>i. (fs ! ex) (GetOrg W w i)"
  let ?M = "Eco_population_max W w (fs ! ex)"
  let ?K = "Eco_ties W w (fs ! ex)"
  let ?step = "\<lambda>i a ex. let f = fs ! ex; M = Eco_population_max W w f
                        in if 0 \<le> M \<and> f (GetOrg W w i) = M
                           then dadd a (ddiv (pool ! ex) (double_of_nat (Eco_ties W w f)))
                           else a"
  have ex: "ex < length fs" "ex < length pool" using Cons.prems(1) by simp_all
  from extra ex have ef: "\<forall>i<GetSize W w. ef ! ex ! i = ?v i"
    and tr: "Eco_tracked ?v (GetSize W w) (mx ! ex) (mc ! ex)" by simp_all
  have M: "?M = Max (set (map ?v [0..<GetSize W w]))"
    by (simp add: Eco_population_max_def Eco_values_def)
  have K: "?K = length (filter (\<lambda>x. x = ?M) (map ?v [0..<GetSize W w]))"
    by (simp add: Eco_ties_def Eco_values_def)
  have T: "(mc ! ex = 0 \<and> (\<forall>i<GetSize W w. \<not> (0 \<le> ?M \<and> ?v i = ?M)))
         \<or> (mc ! ex \<noteq> 0 \<and> mc ! ex = ?K \<and> mx ! ex = ?M \<and> 0 \<le> ?M)"
    using Eco_tracked_final [OF tr] unfolding M [symmetric] K [symmetric] .
  show ?case
  proof (cases "mc ! ex = 0")
    case True
    with T have none: "mc ! ex = 0" "\<forall>i<GetSize W w. \<not> (0 \<le> ?M \<and> ?v i = ?M)"
      by simp_all
    have r: "Eco_readjust pool (ef, mx, mc) (ex # exs) base = Eco_readjust pool (ef, mx, mc) exs base"
      using none(1) by simp
    from Cons.IH [of base] Cons.prems obtain b where
      b: "Eco_readjust pool (ef, mx, mc) exs base = Inr b" "length b = GetSize W w"
         "\<forall>i<GetSize W w. b ! i = foldl (?step i) (base ! i) exs"
      by auto
    have "\<forall>i<GetSize W w. b ! i = foldl (?step i) (base ! i) (ex # exs)"
      using b(3) none(2) by (auto simp: Let_def)
    then show ?thesis
      using r b(1,2) by (intro exI [of _ b]) simp
  next
    case False
    with T have some: "mc ! ex \<noteq> 0" "mc ! ex = ?K" "mx ! ex = ?M" "0 \<le> ?M"
      by simp_all
    define bonus where "bonus = ddiv (pool ! ex) (double_of_nat ?K)"
    define base1 where
      "base1 = foldl (Eco_org_bonus (ef ! ex) (mx ! ex) bonus) base [0..<length base]"
    have r: "Eco_readjust pool (ef, mx, mc) (ex # exs) base = Eco_readjust pool (ef, mx, mc) exs base1"
      using some(1,2) ex(2) by (simp add: vec_at_def base1_def bonus_def Let_def)
    from Eco_org_bonus_fold [of "length base" base "ef ! ex" "mx ! ex" bonus]
    have l1: "length base1 = GetSize W w"
      and n1: "\<forall>i<GetSize W w. base1 ! i =
          (if ef ! ex ! i = mx ! ex then dadd (base ! i) bonus else base ! i)"
      using Cons.prems(2) by (simp_all add: base1_def)
    have s1: "\<forall>i<GetSize W w. base1 ! i = ?step i (base ! i) ex"
      using n1 ef some(3,4) by (simp add: Let_def bonus_def)
    from Cons.IH [of base1] Cons.prems(1) l1 obtain b where
      b: "Eco_readjust pool (ef, mx, mc) exs base1 = Inr b" "length b = GetSize W w"
         "\<forall>i<GetSize W w. b ! i = foldl (?step i) (base1 ! i) exs"
      by auto
    have "\<forall>i<GetSize W w. b ! i = foldl (?step i) (base ! i) (ex # exs)"
      using b(3) s1 by simp
    then show ?thesis
      using r b(1,2) by (intro exI [of _ b]) simp
  qed
qed


lemma Eco_population_max_nonneg:
  assumes "i < GetSize W w" and "\<forall>j<GetSize W w. 0 \<le> f (GetOrg W w j)"
  shows "0 \<le> Eco_population_max W w f"
proof -
  have "f (GetOrg W w i) \<in> set (Eco_values W w f)"
    using assms(1) by (simp add: Eco_values_def)
  then have "f (GetOrg W w i) \<le> Eco_population_max W w f"
    unfolding Eco_population_max_def by (intro Max_ge) simp_all
  with assms show ?thesis by force
qed

lemma xdouble_of_round:
  assumes "round_double q = d" and "\<bar>d\<bar> \<le> DBL_MAX"
  shows "xdouble_of q = Finite d"
proof -
  from assms(2) have "\<not> DBL_MAX < d" "\<not> d < - DBL_MAX" by linarith+
  then show ?thesis
    by (simp add: xdouble_of_def assms(1))
qed

lemma dadd_exact:
  assumes "is_double (a + b)"
  shows "dadd (Finite a) b = Finite (a + b)"
  using assms by (simp add: is_double_def xdouble_of_round)

lemma Eco_share_exact:
  assumes "c < 2 ^ 53" and "is_double (pool / of_nat c)"
  shows "ddiv pool (double_of_nat c) = pool / of_nat c"
  using assms by (simp add: ddiv_def double_of_nat_exact is_double_def)

lemma pop2_values:
  "Eco_values Pop_World pop2 of_nat = [5, 3]"
  "Eco_population_max Pop_World pop2 of_nat = 5"
  "Eco_ties Pop_World pop2 of_nat = 1"
  by (simp_all add: Eco_values_def Eco_population_max_def Eco_ties_def Pop_World_simps pop2_def)

lemma pop_tie_values:
  "Eco_values Pop_World pop_tie of_nat = [3, 5, 5]"
  "Eco_population_max Pop_World pop_tie of_nat = 5"
  "Eco_ties Pop_World pop_tie of_nat = 2"
  by (simp_all add: Eco_values_def Eco_population_max_def Eco_ties_def Pop_World_simps
      pop_tie_def upt_rec)

lemma list2_nth:
  assumes "length xs = 2" "xs ! 0 = a" "xs ! 1 = b"
  shows "xs = [a, b]"
  using assms by (auto simp: list_eq_iff_nth_eq numeral_2_eq_2 less_Suc_eq)

lemma list3_nth:
  assumes "length xs = 3" "xs ! 0 = a" "xs ! 1 = b" "xs ! 2 = c"
  shows "xs = [a, b, c]"
  using assms by (auto simp: list_eq_iff_nth_eq numeral_3_eq_3 numeral_2_eq_2 less_Suc_eq)

text \<open>
  C3, as amended. With at least as many pool sizes as supplemental functions and
  supplemental values that are not negative, the readjusted fitness of an organism is
  its base fitness to which the functions add in turn: a function adds its pool size
  divided by the number of organisms at its maximum over the population to each
  organism at that maximum, and nothing to the others. Quotient and sum are those of
  binary64, rounded to nearest. The gain is exactly the pool size divided by the number
  of organisms at the maximum when that quotient and the sum are numbers of the format;
  with one organism at the maximum that is the pool size, with two its half.
\<close>

theorem EcoSelect_bonus:
  assumes "length extra_funs \<le> length pool_sizes"
    and "\<forall>ex<length extra_funs. \<forall>i<GetSize W w. 0 \<le> (extra_funs ! ex) (GetOrg W w i)"
  shows "(\<exists>adjusted.
            EcoSelect_fitness W w extra_funs pool_sizes = Inr adjusted
            \<and> length adjusted = GetSize W w
            \<and> (\<forall>i<GetSize W w. adjusted ! i =
                  foldl (\<lambda>a ex. Eco_bonus W w (extra_funs ! ex) (pool_sizes ! ex) a (GetOrg W w i))
                    (Finite (CalcFitnessID W w i)) [0..<length extra_funs])
            \<and> (GetFitFun W w \<and> 0 < t_size \<and> t_size \<le> GetSize W w \<and> \<not> IsCacheOn W w \<longrightarrow>
                  EcoSelect W w extra_funs pool_sizes t_size tourny_count =
                    Eco_loop W t_size tourny_count adjusted [] w))
         \<and> (c < 2 ^ 53 \<and> is_double (pool / of_nat c) \<and> is_double (a + pool / of_nat c) \<longrightarrow>
              dadd (Finite a) (ddiv pool (double_of_nat c)) = Finite (a + pool / of_nat c))"
proof -
  from Eco_collect_final [of W w extra_funs] obtain bf ef mx mc where
    c: "Eco_collect W w extra_funs = (bf, ef, mx, mc)"
    and bl: "length bf = GetSize W w"
    and bf: "\<forall>i<GetSize W w. bf ! i = Finite (CalcFitnessID W w i)"
    and ex: "\<forall>ex<length extra_funs.
           (\<forall>i<GetSize W w. ef ! ex ! i = (extra_funs ! ex) (GetOrg W w i))
           \<and> Eco_tracked (\<lambda>i. (extra_funs ! ex) (GetOrg W w i)) (GetSize W w) (mx ! ex) (mc ! ex)"
    by blast
  have "\<forall>ex\<in>set [0..<length extra_funs]. ex < length extra_funs \<and> ex < length pool_sizes"
    using assms(1) by simp
  from Eco_readjust_closed [OF ex this bl] obtain b where
    b: "Eco_readjust pool_sizes (ef, mx, mc) [0..<length extra_funs] bf = Inr b"
      "length b = GetSize W w"
      "\<forall>i<GetSize W w. b ! i =
          foldl (\<lambda>a ex. let f = extra_funs ! ex; M = Eco_population_max W w f
                        in if 0 \<le> M \<and> f (GetOrg W w i) = M
                           then dadd a (ddiv (pool_sizes ! ex) (double_of_nat (Eco_ties W w f)))
                           else a)
            (bf ! i) [0..<length extra_funs]"
    by blast
  have r: "EcoSelect_fitness W w extra_funs pool_sizes = Inr b"
    by (simp add: EcoSelect_fitness_def c b(1))
  have n: "b ! i =
      foldl (\<lambda>a ex. Eco_bonus W w (extra_funs ! ex) (pool_sizes ! ex) a (GetOrg W w i))
        (Finite (CalcFitnessID W w i)) [0..<length extra_funs]" if i: "i < GetSize W w" for i
  proof -
    have "foldl (\<lambda>a ex. let f = extra_funs ! ex; M = Eco_population_max W w f
                        in if 0 \<le> M \<and> f (GetOrg W w i) = M
                           then dadd a (ddiv (pool_sizes ! ex) (double_of_nat (Eco_ties W w f)))
                           else a)
            (bf ! i) [0..<length extra_funs]
       = foldl (\<lambda>a ex. Eco_bonus W w (extra_funs ! ex) (pool_sizes ! ex) a (GetOrg W w i))
            (Finite (CalcFitnessID W w i)) [0..<length extra_funs]"
    proof (rule foldl_cong)
      show "bf ! i = Finite (CalcFitnessID W w i)" using bf i by simp
      show "[0..<length extra_funs] = [0..<length extra_funs]" by (rule refl)
      fix a' x assume "x \<in> set [0..<length extra_funs]"
      then have "x < length extra_funs" by simp
      with assms(2) have "\<forall>j<GetSize W w. 0 \<le> (extra_funs ! x) (GetOrg W w j)" by simp
      from Eco_population_max_nonneg [OF i this]
      show "(let f = extra_funs ! x; M = Eco_population_max W w f
             in if 0 \<le> M \<and> f (GetOrg W w i) = M
                then dadd a' (ddiv (pool_sizes ! x) (double_of_nat (Eco_ties W w f)))
                else a')
            = Eco_bonus W w (extra_funs ! x) (pool_sizes ! x) a' (GetOrg W w i)"
        by (simp add: Eco_bonus_def Let_def)
    qed
    with b(3) i show ?thesis by simp
  qed
  have e: "dadd (Finite a) (ddiv pool (double_of_nat c)) = Finite (a + pool / of_nat c)"
    if "c < 2 ^ 53" "is_double (pool / of_nat c)" "is_double (a + pool / of_nat c)"
    using that by (simp only: Eco_share_exact dadd_exact)
  have l: "EcoSelect W w extra_funs pool_sizes t_size tourny_count =
      Eco_loop W t_size tourny_count b [] w"
    if "GetFitFun W w \<and> 0 < t_size \<and> t_size \<le> GetSize W w \<and> \<not> IsCacheOn W w"
    using that by (simp add: EcoSelect_def r)
  from r b(2) n l have "\<exists>adjusted.
            EcoSelect_fitness W w extra_funs pool_sizes = Inr adjusted
            \<and> length adjusted = GetSize W w
            \<and> (\<forall>i<GetSize W w. adjusted ! i =
                  foldl (\<lambda>a ex. Eco_bonus W w (extra_funs ! ex) (pool_sizes ! ex) a (GetOrg W w i))
                    (Finite (CalcFitnessID W w i)) [0..<length extra_funs])
            \<and> (GetFitFun W w \<and> 0 < t_size \<and> t_size \<le> GetSize W w \<and> \<not> IsCacheOn W w \<longrightarrow>
                  EcoSelect W w extra_funs pool_sizes t_size tourny_count =
                    Eco_loop W t_size tourny_count adjusted [] w)"
    by (intro exI [of _ b]) simp
  with e show ?thesis by blast
qed


lemma eco_rounds:
  "round_double 10 = 10" "round_double 15 = 15"
  "round_double (1 / 2) = 1 / 2" "round_double (11 / 2) = 11 / 2"
  by code_simp+

lemma eco_sums:
  "ddiv 10 (double_of_nat (Suc 0)) = 10"
  "ddiv 1 (double_of_nat 2) = 1 / 2"
  "xdouble_of 15 = Finite 15"
  "xdouble_of (11 / 2) = Finite (11 / 2)"
  "is_double 10" "is_double 15" "is_double (1 / 2)" "is_double (11 / 2)"
proof -
  show "ddiv 10 (double_of_nat (Suc 0)) = 10" "ddiv 1 (double_of_nat 2) = 1 / 2"
    by code_simp+
  show "xdouble_of 15 = Finite 15" "xdouble_of (11 / 2) = Finite (11 / 2)"
    by (rule xdouble_of_round, simp add: eco_rounds, simp add: DBL_MAX_def)+
  show "is_double 10" "is_double 15" "is_double (1 / 2)" "is_double (11 / 2)"
    by (simp_all add: is_double_def eco_rounds DBL_MAX_def)
qed

theorem EcoSelect_bonus_witness:
  "length [of_nat :: nat \<Rightarrow> double] \<le> length [10 :: double]
   \<and> Eco_values Pop_World pop2 of_nat = [5, 3]
   \<and> Eco_ties Pop_World pop2 of_nat = 1
   \<and> map (CalcFitnessID Pop_World pop2) [0, 1] = [5, 3]
   \<and> is_double 10 \<and> is_double (5 + 10)
   \<and> dadd (Finite 5) (ddiv 10 (double_of_nat 1)) = Finite (5 + 10)
   \<and> EcoSelect_fitness Pop_World pop2 [of_nat] [10] = Inr [Finite (5 + 10), Finite 3]
   \<and> Eco_values Pop_World pop_tie of_nat = [3, 5, 5]
   \<and> Eco_ties Pop_World pop_tie of_nat = 2
   \<and> map (CalcFitnessID Pop_World pop_tie) [0, 1, 2] = [3, 5, 5]
   \<and> is_double (1 / 2) \<and> is_double (5 + 1 / 2)
   \<and> dadd (Finite 5) (ddiv 1 (double_of_nat 2)) = Finite (5 + 1 / 2)
   \<and> EcoSelect_fitness Pop_World pop_tie [of_nat] [1] =
       Inr [Finite 3, Finite (5 + 1 / 2), Finite (5 + 1 / 2)]"
proof -
  have sz: "GetSize Pop_World pop2 = 2" "GetSize Pop_World pop_tie = 3"
    by (simp_all add: Pop_World_simps pop2_def pop_tie_def)
  have fit: "CalcFitnessID Pop_World pop2 0 = 5" "CalcFitnessID Pop_World pop2 (Suc 0) = 3"
    "CalcFitnessID Pop_World pop_tie 0 = 3" "CalcFitnessID Pop_World pop_tie (Suc 0) = 5"
    "CalcFitnessID Pop_World pop_tie 2 = 5"
    by (simp_all add: Pop_World_simps pop2_def pop_tie_def)
  have org: "GetOrg Pop_World pop2 0 = 5" "GetOrg Pop_World pop2 (Suc 0) = 3"
    "GetOrg Pop_World pop_tie 0 = 3" "GetOrg Pop_World pop_tie (Suc 0) = 5"
    "GetOrg Pop_World pop_tie 2 = 5"
    by (simp_all add: Pop_World_simps pop2_def pop_tie_def)
  have "\<forall>ex<length [of_nat :: nat \<Rightarrow> double]. \<forall>i<GetSize Pop_World pop2.
          0 \<le> ([of_nat :: nat \<Rightarrow> double] ! ex) (GetOrg Pop_World pop2 i)"
    by simp
  then have "\<exists>adjusted.
      EcoSelect_fitness Pop_World pop2 [of_nat] [10] = Inr adjusted
      \<and> length adjusted = GetSize Pop_World pop2
      \<and> (\<forall>i<GetSize Pop_World pop2. adjusted ! i =
            foldl (\<lambda>a ex. Eco_bonus Pop_World pop2 ([of_nat] ! ex) ([10] ! ex) a (GetOrg Pop_World pop2 i))
              (Finite (CalcFitnessID Pop_World pop2 i)) [0..<length [of_nat :: nat \<Rightarrow> double]])"
    using EcoSelect_bonus [of "[of_nat]" "[10]" Pop_World pop2, THEN conjunct1] by fastforce
  then obtain adjusted where
    r: "EcoSelect_fitness Pop_World pop2 [of_nat] [10] = Inr adjusted"
    and l: "length adjusted = 2"
    and n: "\<forall>i<2. adjusted ! i =
              foldl (\<lambda>a ex. Eco_bonus Pop_World pop2 ([of_nat] ! ex) ([10] ! ex) a (GetOrg Pop_World pop2 i))
                (Finite (CalcFitnessID Pop_World pop2 i)) [0..<length [of_nat :: nat \<Rightarrow> double]]"
    unfolding sz by blast
  from n have "adjusted ! 0 = Finite 15"
    by (simp add: Eco_bonus_def pop2_values fit org eco_sums)
  moreover from n have "adjusted ! 1 = Finite 3"
    by (simp add: Eco_bonus_def pop2_values fit org)
  ultimately have a2: "adjusted = [Finite 15, Finite 3]"
    using l by (intro list2_nth) simp_all
  have "\<forall>ex<length [of_nat :: nat \<Rightarrow> double]. \<forall>i<GetSize Pop_World pop_tie.
          0 \<le> ([of_nat :: nat \<Rightarrow> double] ! ex) (GetOrg Pop_World pop_tie i)"
    by simp
  then have "\<exists>adjusted.
      EcoSelect_fitness Pop_World pop_tie [of_nat] [1] = Inr adjusted
      \<and> length adjusted = GetSize Pop_World pop_tie
      \<and> (\<forall>i<GetSize Pop_World pop_tie. adjusted ! i =
            foldl (\<lambda>a ex. Eco_bonus Pop_World pop_tie ([of_nat] ! ex) ([1] ! ex) a (GetOrg Pop_World pop_tie i))
              (Finite (CalcFitnessID Pop_World pop_tie i)) [0..<length [of_nat :: nat \<Rightarrow> double]])"
    using EcoSelect_bonus [of "[of_nat]" "[1]" Pop_World pop_tie, THEN conjunct1] by fastforce
  then obtain adjusted' where
    r': "EcoSelect_fitness Pop_World pop_tie [of_nat] [1] = Inr adjusted'"
    and l': "length adjusted' = 3"
    and n': "\<forall>i<3. adjusted' ! i =
              foldl (\<lambda>a ex. Eco_bonus Pop_World pop_tie ([of_nat] ! ex) ([1] ! ex) a (GetOrg Pop_World pop_tie i))
                (Finite (CalcFitnessID Pop_World pop_tie i)) [0..<length [of_nat :: nat \<Rightarrow> double]]"
    unfolding sz by blast
  from n' have "adjusted' ! 0 = Finite 3"
    by (simp add: Eco_bonus_def pop_tie_values fit org)
  moreover from n' have "adjusted' ! 1 = Finite (11 / 2)"
    by (simp add: Eco_bonus_def pop_tie_values fit org eco_sums)
  moreover from n' have "adjusted' ! 2 = Finite (11 / 2)"
    by (simp add: Eco_bonus_def pop_tie_values fit org eco_sums)
  ultimately have a3: "adjusted' = [Finite 3, Finite (11 / 2), Finite (11 / 2)]"
    using l' by (intro list3_nth) simp_all
  have h: "length [of_nat :: nat \<Rightarrow> double] \<le> length [10 :: double]"
    "\<forall>ex<length [of_nat :: nat \<Rightarrow> double]. \<forall>i<GetSize Pop_World pop2.
          0 \<le> ([of_nat :: nat \<Rightarrow> double] ! ex) (GetOrg Pop_World pop2 i)"
    by simp_all
  note E = EcoSelect_bonus [OF h, THEN conjunct2]
  have e1: "dadd (Finite 5) (ddiv 10 (double_of_nat 1)) = Finite (5 + 10)"
    using E [of 1 10 5] by (simp add: eco_sums)
  have e2: "dadd (Finite 5) (ddiv 1 (double_of_nat 2)) = Finite (5 + 1 / 2)"
    using E [of 2 1 5] by (simp add: eco_sums)
  show ?thesis
    using r r' e1 e2 by (simp add: a2 a3 pop2_values pop_tie_values fit eco_sums)
qed

lemma eco_tenth:
  "is_double (3602879701896397 / 36028797018963968)"
  "ddiv (3602879701896397 / 36028797018963968) (double_of_nat (Suc 0))
     = 3602879701896397 / 36028797018963968"
  "xdouble_of (183746864796716237 / 36028797018963968)
     = Finite (2871044762448691 / 562949953421312)"
proof -
  have r: "round_double (3602879701896397 / 36028797018963968)
      = 3602879701896397 / 36028797018963968"
    "round_double (183746864796716237 / 36028797018963968)
      = 2871044762448691 / 562949953421312"
    by code_simp+
  show "is_double (3602879701896397 / 36028797018963968)"
    by (simp add: is_double_def r DBL_MAX_def)
  show "ddiv (3602879701896397 / 36028797018963968) (double_of_nat (Suc 0))
     = 3602879701896397 / 36028797018963968"
    by code_simp
  show "xdouble_of (183746864796716237 / 36028797018963968)
     = Finite (2871044762448691 / 562949953421312)"
    by (rule xdouble_of_round, simp add: r, simp add: DBL_MAX_def)
qed

text \<open>
  C3 as stated fails: the gain is not exactly the pool size. In the population of two
  with fitness 5 and 3 the first organism alone is at the maximum of the supplemental
  function; with the pool size \<open>3602879701896397 / 2^55\<close>, the \<^verbatim>\<open>double\<close> nearest to
  0.1, the sum \<open>5 + pool\<close> is not a number of the format, and the organism gains
  \<open>56294995342131 / 2^49\<close>, which is less.
\<close>

theorem EcoSelect_bonus_counterexample:
  "Eco_values Pop_World pop2 of_nat = [5, 3]
   \<and> Eco_ties Pop_World pop2 of_nat = 1
   \<and> map (CalcFitnessID Pop_World pop2) [0, 1] = [5, 3]
   \<and> is_double (3602879701896397 / 36028797018963968)
   \<and> EcoSelect_fitness Pop_World pop2 [of_nat] [3602879701896397 / 36028797018963968]
       = Inr [Finite (2871044762448691 / 562949953421312), Finite 3]
   \<and> (2871044762448691 / 562949953421312 :: rat) - 5 \<noteq> 3602879701896397 / 36028797018963968"
proof -
  have "EcoSelect_fitness Pop_World pop2 [of_nat] [3602879701896397 / 36028797018963968]
       = Inr [Finite (2871044762448691 / 562949953421312), Finite 3]"
    by (simp add: EcoSelect_fitness_def Eco_collect_def Eco_org_step_def Eco_extra_step_def
        Eco_org_bonus_apply vec_at_def Pop_World_simps pop2_def Let_def eco_tenth)
  then show ?thesis
    by (simp add: pop2_values eco_tenth) (simp add: Pop_World_simps pop2_def)
qed

section \<open>The assertions at the entry of the schemes\<close>

text \<open>
  C8, as amended. A zero elite count in \<^verbatim>\<open>EliteSelect\<close>, a zero tournament size in
  \<^verbatim>\<open>TournamentSelect\<close> and in \<^verbatim>\<open>EcoSelect\<close>, and an empty list of fitness functions
  in \<^verbatim>\<open>LexicaseSelect\<close> each fail an assertion before any birth, with the world
  unchanged.
\<close>

theorem contract_assertions:
  "EliteSelect W w 0 copy_count = (Some AssertFail, [], w)
   \<and> TournamentSelect W w 0 tourny_count = (Some AssertFail, [], w)
   \<and> EcoSelect W w extra_funs pool_sizes 0 tourny_count = (Some AssertFail, [], w)
   \<and> LexicaseSelect W perm w [] repro_count max_funs = (Some AssertFail, [], w)"
  by (simp add: EliteSelect_def TournamentSelect_def EcoSelect_def LexicaseSelect_def)

theorem contract_assertions_witness:
  "EliteSelect Pop_World pop2 0 1 = (Some AssertFail, [], pop2)
   \<and> TournamentSelect Pop_World pop2 0 1 = (Some AssertFail, [], pop2)
   \<and> EcoSelect Pop_World pop2 [of_nat] [10] 0 1 = (Some AssertFail, [], pop2)
   \<and> LexicaseSelect Pop_World (\<lambda>r n. ([], r)) pop2 [] 1 0 = (Some AssertFail, [], pop2)"
  using contract_assertions
    [where W = Pop_World and w = pop2 and copy_count = 1 and tourny_count = 1
       and extra_funs = "[of_nat]" and pool_sizes = "[10]" and perm = "\<lambda>r n. ([], r)"
       and repro_count = 1 and max_funs = 0]
  by simp

lemma pop2_eco_fitness:
  "EcoSelect_fitness Pop_World pop2 [of_nat] [10, 20] = Inr [Finite 15, Finite 3]"
  by (simp add: EcoSelect_fitness_def Eco_collect_def Eco_org_step_def Eco_extra_step_def
      Eco_org_bonus_apply vec_at_def Pop_World_simps pop2_def Let_def eco_sums)

text \<open>
  C8 as stated fails: \<^verbatim>\<open>EcoSelect\<close> does not compare the number of pool sizes with the
  number of supplemental functions. With one function and two pool sizes the call runs
  to its end and requests a birth.
\<close>

theorem contract_assertions_counterexample:
  "length [10, 20 :: double] \<noteq> length [of_nat :: nat \<Rightarrow> double]
   \<and> fst (EcoSelect Pop_World pop2 [of_nat] [10, 20] 1 1) = None
   \<and> fst (snd (EcoSelect Pop_World pop2 [of_nat] [10, 20] 1 1)) = [(1, 1)]"
proof -
  have p: "GetFitFun Pop_World pop2" "GetSize Pop_World pop2 = 2" "\<not> IsCacheOn Pop_World pop2"
    by (simp_all add: Pop_World_simps pop2_def)
  have "EcoSelect Pop_World pop2 [of_nat] [10, 20] 1 1 =
          Eco_loop Pop_World 1 (Suc 0) [Finite 15, Finite 3] [] pop2"
    by (simp add: EcoSelect_def p pop2_eco_fitness)
  then show ?thesis
    by (simp add: Pop_World_simps pop2_draws Eco_best_def vec_at_def)
qed

end
